theory Spec2Isabelle
  imports Main "HOL-Library.AList"
begin

section \<open>Data model\<close>

text \<open>
  The converter works on parsed OpenAPI documents, which the TypeScript source types as
  \<^verbatim>\<open>any\<close>. A schema node is modelled as the JSON object the code probes: one
  optional field for every key that \<^verbatim>\<open>resolveSchema\<close>, \<^verbatim>\<open>flattenSchema\<close> and
  \<^verbatim>\<open>unflattenSchema\<close> read or write. \<open>None\<close> is an absent key
  (\<^verbatim>\<open>undefined\<close>). A \<^verbatim>\<open>properties\<close> object is an association list in
  \<^verbatim>\<open>Object.entries\<close> order, which is insertion order. Outside the model are
  property names that are canonical array indices (\<^verbatim>\<open>"0"\<close>, \<^verbatim>\<open>"1"\<close>, ...), which
  JavaScript lists before all other keys, and names inherited from
  \<^verbatim>\<open>Object.prototype\<close>; the keys of one object are distinct, as after
  \<^verbatim>\<open>JSON.parse\<close>. \<^verbatim>\<open>additionalProperties\<close> is either a boolean or a schema.
  Strings are lists of characters; the code splits and compares them only at the ASCII
  characters \<^verbatim>\<open>.\<close>, \<^verbatim>\<open>/\<close>, \<^verbatim>\<open>[\<close> and \<^verbatim>\<open>]\<close>.
\<close>

datatype 'a addl = AddlBool bool | AddlSchema 'a

datatype schema = Schema
  (s_ref: "string option")
  (s_type: "string option")
  (s_description: "string option")
  (s_properties: "(string \<times> schema) list option")
  (s_required: "string list option")
  (s_additionalProperties: "schema addl option")
  (s_items: "schema option")
  (s_allOf: "schema list option")
  (s_oneOf: "schema list option")
  (s_anyOf: "schema list option")
  (s_enum: "string list option")
  (s_example: "string option")

text \<open>The object literal \<^verbatim>\<open>{}\<close>, and the literals the code builds from it.\<close>

definition emptyObj :: schema where
  "emptyObj = Schema None None None None None None None None None None None None"

fun set_ref :: "string option \<Rightarrow> schema \<Rightarrow> schema" where
  "set_ref v (Schema r t d p q a i al on an e x) = Schema v t d p q a i al on an e x"

fun set_type :: "string option \<Rightarrow> schema \<Rightarrow> schema" where
  "set_type v (Schema r t d p q a i al on an e x) = Schema r v d p q a i al on an e x"

fun set_description :: "string option \<Rightarrow> schema \<Rightarrow> schema" where
  "set_description v (Schema r t d p q a i al on an e x) = Schema r t v p q a i al on an e x"

fun set_properties :: "(string \<times> schema) list option \<Rightarrow> schema \<Rightarrow> schema" where
  "set_properties v (Schema r t d p q a i al on an e x) = Schema r t d v q a i al on an e x"

fun set_required :: "string list option \<Rightarrow> schema \<Rightarrow> schema" where
  "set_required v (Schema r t d p q a i al on an e x) = Schema r t d p v a i al on an e x"

fun set_additionalProperties :: "schema addl option \<Rightarrow> schema \<Rightarrow> schema" where
  "set_additionalProperties v (Schema r t d p q a i al on an e x) =
     Schema r t d p q v i al on an e x"

fun set_items :: "schema option \<Rightarrow> schema \<Rightarrow> schema" where
  "set_items v (Schema r t d p q a i al on an e x) = Schema r t d p q a v al on an e x"

fun set_allOf :: "schema list option \<Rightarrow> schema \<Rightarrow> schema" where
  "set_allOf v (Schema r t d p q a i al on an e x) = Schema r t d p q a i v on an e x"

fun set_oneOf :: "schema list option \<Rightarrow> schema \<Rightarrow> schema" where
  "set_oneOf v (Schema r t d p q a i al on an e x) = Schema r t d p q a i al v an e x"

fun set_anyOf :: "schema list option \<Rightarrow> schema \<Rightarrow> schema" where
  "set_anyOf v (Schema r t d p q a i al on an e x) = Schema r t d p q a i al on v e x"

text \<open>\<^verbatim>\<open>interface FlatSchemaRow\<close>; \<^verbatim>\<open>unflattenSchema\<close> reads the fields
  \<open>path\<close>, \<open>type\<close>, \<open>description\<close> and \<open>ref\<close> of the same rows.\<close>

record row =
  path :: string
  type :: string
  required :: bool
  description :: string
  enum :: "string list option"
  example :: "string option"
  ref :: "string option"

text \<open>The component registry \<^verbatim>\<open>rootSpec.components.schemas\<close>: \<open>None\<close> when
  \<^verbatim>\<open>components\<close> or \<^verbatim>\<open>components.schemas\<close> is absent.\<close>

type_synonym registry = "(string \<times> schema) list option"

section \<open>String helpers\<close>

text \<open>\<^verbatim>\<open>s.split(c)\<close> for a one-character separator: never the empty list.\<close>

fun split :: "char \<Rightarrow> string \<Rightarrow> string list" where
  "split c [] = [[]]"
| "split c (x # xs) =
     (if x = c then [] # split c xs
      else (case split c xs of w # ws \<Rightarrow> (x # w) # ws | [] \<Rightarrow> [[x]]))"

definition startsWith :: "string \<Rightarrow> string \<Rightarrow> bool" where
  "startsWith s p = (take (length p) s = p)"

definition endsWith :: "string \<Rightarrow> string \<Rightarrow> bool" where
  "endsWith s p = (length p \<le> length s \<and> drop (length s - length p) s = p)"

text \<open>JavaScript truthiness of an optional string: absent and \<^verbatim>\<open>""\<close> are falsy.\<close>

fun truthy :: "string option \<Rightarrow> bool" where
  "truthy None = False"
| "truthy (Some s) = (s \<noteq> [])"

text \<open>\<^verbatim>\<open>x || d\<close> on an optional string.\<close>

fun orElse :: "string option \<Rightarrow> string \<Rightarrow> string" where
  "orElse None d = d"
| "orElse (Some s) d = (if s = [] then d else s)"

section \<open>Reference resolver\<close>

text \<open>
  \<^verbatim>\<open>resolveSchema\<close> returns a shallow copy of the registry entry with the two extra
  keys \<^verbatim>\<open>_resolvedFrom\<close> and \<^verbatim>\<open>_originalRef\<close>, or a shallow copy of the node
  itself. The copy with its annotations is a record; the annotations are absent on a node
  that was not resolved through the registry. (A schema argument is always an object
  here, so the \<^verbatim>\<open>null\<close> branch of the source is not reached.)
\<close>

record resolved =
  node :: schema
  resolvedFrom :: "string option"
  originalRef :: "string option"

definition resolveSchema :: "schema \<Rightarrow> registry \<Rightarrow> resolved" where
  "resolveSchema schema rootSpec =
     (if truthy (s_ref schema) then
        (let refName = last (split CHR ''/'' (the (s_ref schema))) in
         case rootSpec of
           None \<Rightarrow> \<lparr>node = schema, resolvedFrom = None, originalRef = None\<rparr>
         | Some schemas \<Rightarrow>
             (case map_of schemas refName of
                None \<Rightarrow> \<lparr>node = schema, resolvedFrom = None, originalRef = None\<rparr>
              | Some target \<Rightarrow>
                  \<lparr>node = target, resolvedFrom = Some refName, originalRef = s_ref schema\<rparr>))
      else \<lparr>node = schema, resolvedFrom = None, originalRef = None\<rparr>)"

section \<open>Flattener\<close>

text \<open>\<^verbatim>\<open>xs.forEach(f)\<close> where \<open>f\<close> updates a state and may fail to return.\<close>

fun forEachM :: "('a \<Rightarrow> 's \<Rightarrow> 's option) \<Rightarrow> 'a list \<Rightarrow> 's \<Rightarrow> 's option" where
  "forEachM f [] s = Some s"
| "forEachM f (x # xs) s = (case f x s of None \<Rightarrow> None | Some s' \<Rightarrow> forEachM f xs s')"

text \<open>\<^verbatim>\<open>Object.assign(target, source)\<close> on property objects: an existing key keeps
  its position and takes the new value, a new key is appended.\<close>

definition assign :: "(string \<times> 'v) list \<Rightarrow> (string \<times> 'v) list \<Rightarrow> (string \<times> 'v) list" where
  "assign target source = fold (\<lambda>(k, v) m. AList.update k v m) source target"

text \<open>The accumulator \<^verbatim>\<open>merged\<close> of the \<^verbatim>\<open>allOf\<close> loop.\<close>

record merged =
  m_properties :: "(string \<times> schema) list"
  m_required :: "string list"
  m_additionalProperties :: "schema addl option"

fun addlTruthy :: "schema addl option \<Rightarrow> bool" where
  "addlTruthy None = False"
| "addlTruthy (Some (AddlBool b)) = b"
| "addlTruthy (Some (AddlSchema s)) = True"

definition mergeStep :: "registry \<Rightarrow> schema \<Rightarrow> merged \<Rightarrow> merged" where
  "mergeStep rootSpec s m =
     (let resolvedS = node (resolveSchema s rootSpec);
          m1 = (case s_properties resolvedS of
                  Some ps \<Rightarrow> m\<lparr>m_properties := assign (m_properties m) ps\<rparr>
                | None \<Rightarrow> m);
          m2 = (case s_required resolvedS of
                  Some rs \<Rightarrow> m1\<lparr>m_required := m_required m1 @ rs\<rparr>
                | None \<Rightarrow> m1)
      in if addlTruthy (s_additionalProperties resolvedS)
         then m2\<lparr>m_additionalProperties := s_additionalProperties resolvedS\<rparr>
         else m2)"

definition mergeAllOf :: "registry \<Rightarrow> schema list \<Rightarrow> merged" where
  "mergeAllOf rootSpec branches =
     fold (mergeStep rootSpec) branches
       \<lparr>m_properties = [], m_required = [], m_additionalProperties = None\<rparr>"

text \<open>\<^verbatim>\<open>resolved = { ...resolved, ...merged }\<close>: \<^verbatim>\<open>properties\<close> and
  \<^verbatim>\<open>required\<close> are always keys of \<^verbatim>\<open>merged\<close>, \<^verbatim>\<open>additionalProperties\<close> only
  when a branch set it.\<close>

definition spreadMerged :: "schema \<Rightarrow> merged \<Rightarrow> schema" where
  "spreadMerged r m =
     (let r1 = set_required (Some (m_required m)) (set_properties (Some (m_properties m)) r)
      in case m_additionalProperties m of
           None \<Rightarrow> r1
         | Some a \<Rightarrow> set_additionalProperties (Some a) r1)"

definition applyAllOf :: "registry \<Rightarrow> schema \<Rightarrow> schema" where
  "applyAllOf rootSpec r =
     (case s_allOf r of
        Some branches \<Rightarrow> spreadMerged r (mergeAllOf rootSpec branches)
      | None \<Rightarrow> r)"

text \<open>\<^verbatim>\<open>resolved.oneOf || resolved.anyOf\<close>: an array, even an empty one, is truthy.\<close>

definition polymorphic :: "schema \<Rightarrow> schema list" where
  "polymorphic r =
     (case s_oneOf r of
        Some bs \<Rightarrow> bs
      | None \<Rightarrow> (case s_anyOf r of Some bs \<Rightarrow> bs | None \<Rightarrow> []))"

text \<open>\<^verbatim>\<open>resolved.type || (resolved.properties ? 'object' : 'string')\<close>.\<close>

definition nodeType :: "schema \<Rightarrow> string" where
  "nodeType r = orElse (s_type r) (if s_properties r \<noteq> None then ''object'' else ''string'')"

definition cycleRow :: "string \<Rightarrow> string \<Rightarrow> bool \<Rightarrow> string option \<Rightarrow> row" where
  "cycleRow currentPath name isRequired oref =
     \<lparr>path = currentPath, type = ''Recursive ('' @ name @ '')'', required = isRequired,
      description = ''Recursive reference detected'', enum = None, example = None,
      ref = oref\<rparr>"

definition nodeRow :: "schema \<Rightarrow> string \<Rightarrow> bool \<Rightarrow> string option \<Rightarrow> row" where
  "nodeRow r currentPath isRequired oref =
     \<lparr>path = currentPath, type = nodeType r, required = isRequired,
      description = orElse (s_description r) '''', enum = s_enum r, example = s_example r,
      ref = oref\<rparr>"

definition anyRow :: "string \<Rightarrow> row" where
  "anyRow childPath =
     \<lparr>path = childPath, type = ''any'', required = False,
      description = ''Any value allowed'', enum = None, example = None, ref = None\<rparr>"

text \<open>The two nested conditions that guard the push of the node's own row.\<close>

definition emitsRow :: "schema \<Rightarrow> string \<Rightarrow> string option \<Rightarrow> bool" where
  "emitsRow r currentPath oref =
     ((currentPath \<noteq> [] \<or> truthy oref \<or> nodeType r = ''array'') \<and>
      (currentPath \<noteq> [] \<or> nodeType r \<noteq> ''object'' \<or> truthy oref))"

text \<open>\<^verbatim>\<open>rows.find(...)\<close>: a row with the same path, type and description exists.\<close>

definition rowExists :: "row list \<Rightarrow> row \<Rightarrow> bool" where
  "rowExists rows r =
     (\<exists>x \<in> set rows. path x = path r \<and> type x = type r \<and> description x = description r)"

definition pushNodeRow :: "schema \<Rightarrow> string \<Rightarrow> bool \<Rightarrow> string option \<Rightarrow> row list \<Rightarrow> row list" where
  "pushNodeRow r currentPath isRequired oref rows =
     (if emitsRow r currentPath oref \<and> \<not> rowExists rows (nodeRow r currentPath isRequired oref)
      then rows @ [nodeRow r currentPath isRequired oref]
      else rows)"

definition propPath :: "string \<Rightarrow> string \<Rightarrow> string" where
  "propPath currentPath key = (if currentPath \<noteq> [] then currentPath @ ''.'' @ key else key)"

text \<open>
  \<^verbatim>\<open>flattenSchema\<close>. The source recurses without a bound, so the model takes fuel: one
  unit per call, \<open>None\<close> when it runs out. \<open>flattenStep\<close> is the body of the
  function, with the function itself as the parameter \<open>self\<close>. The array
  \<^verbatim>\<open>rows\<close> is one object shared by all calls, so it is threaded through them.
  \<^verbatim>\<open>visitedRefs\<close> is a mutable set: a call adds to the set it was handed, and the
  result carries that set as the call left it. Every recursive call is handed
  \<^verbatim>\<open>new Set(visitedRefs)\<close>, a copy, so the set a child returns is dropped
  (\<open>map_option fst\<close>).
\<close>

type_synonym flattener =
  "schema \<Rightarrow> registry \<Rightarrow> string \<Rightarrow> bool \<Rightarrow> row list \<Rightarrow> string set
     \<Rightarrow> (row list \<times> string set) option"

definition requiredFields :: "schema \<Rightarrow> string list" where
  "requiredFields r = (case s_required r of None \<Rightarrow> [] | Some q \<Rightarrow> q)"

definition flattenPoly ::
  "flattener \<Rightarrow> schema \<Rightarrow> registry \<Rightarrow> string \<Rightarrow> bool \<Rightarrow> string set \<Rightarrow> row list
     \<Rightarrow> row list option" where
  "flattenPoly self r rootSpec currentPath isRequired visited rows =
     forEachM (\<lambda>s rs. map_option fst (self s rootSpec currentPath isRequired rs visited))
       (polymorphic r) rows"

definition flattenProps ::
  "flattener \<Rightarrow> schema \<Rightarrow> registry \<Rightarrow> string \<Rightarrow> string set \<Rightarrow> row list
     \<Rightarrow> row list option" where
  "flattenProps self r rootSpec currentPath visited rows =
     (case s_properties r of
        None \<Rightarrow> Some rows
      | Some props \<Rightarrow>
          forEachM (\<lambda>(key, prop) rs. map_option fst
              (self prop rootSpec (propPath currentPath key)
                 (key \<in> set (requiredFields r)) rs visited))
            props rows)"

definition flattenMap ::
  "flattener \<Rightarrow> schema \<Rightarrow> registry \<Rightarrow> string \<Rightarrow> string set \<Rightarrow> row list
     \<Rightarrow> row list option" where
  "flattenMap self r rootSpec currentPath visited rows =
     (case s_additionalProperties r of
        Some (AddlSchema a) \<Rightarrow>
          map_option fst (self a rootSpec (propPath currentPath ''<key>'') False rows visited)
      | Some (AddlBool True) \<Rightarrow> Some (rows @ [anyRow (propPath currentPath ''<key>'')])
      | _ \<Rightarrow> Some rows)"

definition flattenItems ::
  "flattener \<Rightarrow> schema \<Rightarrow> registry \<Rightarrow> string \<Rightarrow> string set \<Rightarrow> row list
     \<Rightarrow> row list option" where
  "flattenItems self r rootSpec currentPath visited rows =
     (case (if nodeType r = ''array'' then s_items r else None) of
        None \<Rightarrow> Some rows
      | Some it \<Rightarrow> map_option fst (self it rootSpec (currentPath @ ''[]'') False rows visited))"

definition flattenStep :: "flattener \<Rightarrow> flattener" where
  "flattenStep self schema rootSpec currentPath isRequired rows visitedRefs =
     (let oref = s_ref schema;
          res = resolveSchema schema rootSpec
      in if truthy (resolvedFrom res) \<and> the (resolvedFrom res) \<in> visitedRefs
         then Some (rows @ [cycleRow currentPath (the (resolvedFrom res)) isRequired oref],
                    visitedRefs)
         else
          (let visited = (if truthy (resolvedFrom res)
                          then insert (the (resolvedFrom res)) visitedRefs else visitedRefs);
               r = applyAllOf rootSpec (node res)
           in case flattenPoly self r rootSpec currentPath isRequired visited rows of
                None \<Rightarrow> None
              | Some rows1 \<Rightarrow>
                 (case flattenProps self r rootSpec currentPath visited
                         (pushNodeRow r currentPath isRequired oref rows1) of
                    None \<Rightarrow> None
                  | Some rows3 \<Rightarrow>
                     (case flattenMap self r rootSpec currentPath visited rows3 of
                        None \<Rightarrow> None
                      | Some rows4 \<Rightarrow>
                         (case flattenItems self r rootSpec currentPath visited rows4 of
                            None \<Rightarrow> None
                          | Some rows5 \<Rightarrow> Some (rows5, visited))))))"

primrec flattenSchema :: "nat \<Rightarrow> flattener" where
  "flattenSchema 0 = (\<lambda>schema rootSpec currentPath isRequired rows visitedRefs. None)"
| "flattenSchema (Suc n) = flattenStep (flattenSchema n)"

text \<open>The call of the callers, \<^verbatim>\<open>flattenSchema(schema, rootSpec)\<close>, with the default
  arguments.\<close>

definition flattenRows :: "nat \<Rightarrow> schema \<Rightarrow> registry \<Rightarrow> row list option" where
  "flattenRows n schema rootSpec =
     map_option fst (flattenSchema n schema rootSpec [] False [] {})"

section \<open>Reconstructor\<close>

text \<open>
  \<^verbatim>\<open>unflattenSchema\<close> mutates the tree under construction through the cursor
  \<^verbatim>\<open>current\<close>. The model walks the path segments recursively and returns the
  updated node, which the caller stores back where the cursor came from. Reading a
  property of \<^verbatim>\<open>undefined\<close>, or writing one, throws a \<^verbatim>\<open>TypeError\<close>; nothing
  catches it in \<^verbatim>\<open>unflattenSchema\<close>, so the walk stops with \<open>Inl TypeError\<close> at
  the first segment where the cursor is \<^verbatim>\<open>undefined\<close>: every path through the
  source from there dereferences the cursor.
\<close>

datatype error = TypeError

text \<open>The literals \<^verbatim>\<open>{ type: 'object', properties: {} }\<close> and
  \<^verbatim>\<open>{ type: 'array', items: { type: 'object', properties: {} } }\<close>.\<close>

definition objNode :: schema where
  "objNode = set_properties (Some []) (set_type (Some ''object'') emptyObj)"

definition arrayNode :: schema where
  "arrayNode = set_items (Some objNode) (set_type (Some ''array'') emptyObj)"

text \<open>
  The block run at the last segment. With a \<^verbatim>\<open>ref\<close> the node loses all its keys and
  becomes \<^verbatim>\<open>{ $ref: row.ref }\<close>. Otherwise it takes the row's type and description;
  in the root-array and array-item branches the type is only written when it is not
  \<^verbatim>\<open>'array'\<close> (\<open>guarded\<close>), in the map-key and plain-property branches always.
\<close>

definition finish :: "row \<Rightarrow> bool \<Rightarrow> schema \<Rightarrow> schema" where
  "finish row guarded current =
     (if truthy (ref row) then set_ref (ref row) emptyObj
      else
        (let c1 = (if guarded \<and> type row = ''array'' then current
                   else set_type (Some (type row)) current);
             c2 = set_description (Some (description row)) c1
         in if type row \<noteq> ''object'' \<and> type row \<noteq> ''array''
            then set_properties None c2 else c2))"

definition cleanPart :: "string \<Rightarrow> string" where
  "cleanPart part = (if endsWith part ''[]'' then take (length part - 2) part else part)"

fun walk :: "row \<Rightarrow> string list \<Rightarrow> schema \<Rightarrow> error + schema" where
  "walk row [] current = Inr current"
| "walk row (part # rest) current =
     (if cleanPart part = [] then
        (let cur = (if s_type current \<noteq> Some ''array''
                    then set_properties None
                           (set_items (Some objNode) (set_type (Some ''array'') current))
                    else current)
         in case s_items cur of
              None \<Rightarrow> Inl TypeError
            | Some it \<Rightarrow>
                (case (if rest = [] then Inr (finish row True it) else walk row rest it) of
                   Inl e \<Rightarrow> Inl e
                 | Inr it' \<Rightarrow> Inr (set_items (Some it') cur)))
      else if cleanPart part = ''<key>'' \<or> cleanPart part = ''*'' then
        (case (case s_additionalProperties current of
                 Some (AddlSchema a) \<Rightarrow> Inr a
               | Some (AddlBool True) \<Rightarrow> Inl TypeError
               | _ \<Rightarrow> Inr objNode) of
           Inl e \<Rightarrow> Inl e
         | Inr a \<Rightarrow>
             (case (if rest = [] then Inr (finish row False a) else walk row rest a) of
                Inl e \<Rightarrow> Inl e
              | Inr a' \<Rightarrow> Inr (set_additionalProperties (Some (AddlSchema a')) current)))
      else
        (let props = (case s_properties current of None \<Rightarrow> [] | Some ps \<Rightarrow> ps) in
         if endsWith part ''[]'' then
           (let child = (case map_of props (cleanPart part) of
                           None \<Rightarrow> arrayNode | Some c \<Rightarrow> c)
            in case s_items child of
                 None \<Rightarrow> Inl TypeError
               | Some it \<Rightarrow>
                   (case (if rest = [] then Inr (finish row True it) else walk row rest it) of
                      Inl e \<Rightarrow> Inl e
                    | Inr it' \<Rightarrow>
                        Inr (set_properties
                               (Some (AList.update (cleanPart part)
                                        (set_items (Some it') child) props))
                               current)))
         else
           (let child = (case map_of props (cleanPart part) of
                           None \<Rightarrow> objNode | Some c \<Rightarrow> c)
            in case (if rest = [] then Inr (finish row False child)
                     else walk row rest child) of
                 Inl e \<Rightarrow> Inl e
               | Inr child' \<Rightarrow>
                   Inr (set_properties
                          (Some (AList.update (cleanPart part) child' props)) current))))"

text \<open>\<^verbatim>\<open>skippedPaths.some(p => row.path.startsWith(p + '.') || row.path.startsWith(p + '['))\<close>\<close>

definition skipped :: "string list \<Rightarrow> string \<Rightarrow> bool" where
  "skipped skippedPaths p =
     (\<exists>q \<in> set skippedPaths. startsWith p (q @ ''.'') \<or> startsWith p (q @ ''[''))"

text \<open>
  The callback of \<^verbatim>\<open>rows.forEach\<close>, on the pair of the root and
  \<^verbatim>\<open>skippedPaths\<close>. Each of the blocks run at the last segment pushes
  \<^verbatim>\<open>row.path\<close> exactly when \<^verbatim>\<open>row.ref\<close> is set, so the push is written once,
  after the walk.
\<close>

definition processRow :: "row \<Rightarrow> schema \<times> string list \<Rightarrow> error + schema \<times> string list" where
  "processRow row st =
     (if path row = [] then Inr st
      else if skipped (snd st) (path row) then Inr st
      else (case walk row (split CHR ''.'' (path row)) (fst st) of
              Inl e \<Rightarrow> Inl e
            | Inr root' \<Rightarrow>
                Inr (root', if truthy (ref row) then snd st @ [path row] else snd st)))"

fun forEachE :: "('a \<Rightarrow> 's \<Rightarrow> error + 's) \<Rightarrow> 'a list \<Rightarrow> 's \<Rightarrow> error + 's" where
  "forEachE f [] s = Inr s"
| "forEachE f (x # xs) s = (case f x s of Inl e \<Rightarrow> Inl e | Inr s' \<Rightarrow> forEachE f xs s')"

definition unflattenSchema :: "row list \<Rightarrow> error + schema" where
  "unflattenSchema rows =
     (case forEachE processRow rows (objNode, []) of
        Inl e \<Rightarrow> Inl e
      | Inr st \<Rightarrow> Inr (fst st))"

section \<open>Fidelity validator\<close>

text \<open>
  The part of a parsed OpenAPI document that \<^verbatim>\<open>validateSpecFidelity\<close> reads. Of the
  \<^verbatim>\<open>servers\<close>, \<^verbatim>\<open>tags\<close> and \<^verbatim>\<open>security\<close> arrays only the length is
  read, so their elements are kept as strings. A path item is the association list of its
  keys (the methods) in \<^verbatim>\<open>Object.keys\<close> order.
\<close>

record info =
  title :: "string option"

record operation =
  operationId :: "string option"
  security :: "string list option"

record spec =
  info :: "info option"
  servers :: "string list option"
  tags :: "string list option"
  components :: registry
  paths :: "(string \<times> (string \<times> operation) list) list option"

text \<open>A thrown \<^verbatim>\<open>Error\<close> object, of which the handler reads \<^verbatim>\<open>message\<close>.\<close>

datatype exn = Exn (message: string)

record fidelity =
  score :: int
  report :: "string list"

text \<open>Template-literal conversions: a number in decimal, an optional string with
  \<^verbatim>\<open>undefined\<close> for an absent one, and \<^verbatim>\<open>toUpperCase\<close> on ASCII letters.\<close>

fun showNat :: "nat \<Rightarrow> string" where
  "showNat n =
     (if n < 10 then [''0123456789'' ! n]
      else showNat (n div 10) @ [''0123456789'' ! (n mod 10)])"

fun showOpt :: "string option \<Rightarrow> string" where
  "showOpt None = ''undefined''"
| "showOpt (Some s) = s"

definition toUpperCase :: "string \<Rightarrow> string" where
  "toUpperCase s =
     map (\<lambda>c. if (97::nat) \<le> of_char c \<and> of_char c \<le> (122::nat)
              then char_of (of_char c - (32::nat)) else c) s"

text \<open>\<^verbatim>\<open>xs?.length || 0\<close> and \<^verbatim>\<open>x.info?.title\<close>.\<close>

fun lengthOr0 :: "'a list option \<Rightarrow> nat" where
  "lengthOr0 None = 0"
| "lengthOr0 (Some xs) = length xs"

fun titleOf :: "info option \<Rightarrow> string option" where
  "titleOf None = None"
| "titleOf (Some i) = title i"

text \<open>The state of the comparison: the array \<^verbatim>\<open>report\<close> and the counter
  \<^verbatim>\<open>missingCount\<close>, a JavaScript number that the component comparison may lower.\<close>

record tally =
  lines :: "string list"
  missingCount :: int

definition pushLine :: "string \<Rightarrow> tally \<Rightarrow> tally" where
  "pushLine l t = t\<lparr>lines := lines t @ [l]\<rparr>"

definition bump :: "tally \<Rightarrow> tally" where
  "bump t = t\<lparr>missingCount := missingCount t + 1\<rparr>"

text \<open>
  The title comparison uses \<^verbatim>\<open>?.\<close>, the message it pushes does not: when the titles
  differ and one document has no \<^verbatim>\<open>info\<close>, building the message throws a
  \<^verbatim>\<open>TypeError\<close>.
\<close>

definition undefinedTitle :: exn where
  "undefinedTitle = Exn ''Cannot read properties of undefined (reading 'title')''"

definition compareInfo :: "spec \<Rightarrow> spec \<Rightarrow> tally \<Rightarrow> exn + tally" where
  "compareInfo original restored t =
     (if titleOf (info original) \<noteq> titleOf (info restored) then
        (case (info original, info restored) of
           (Some oi, Some ri) \<Rightarrow>
             Inr (pushLine (''Title mismatch: \"'' @ showOpt (title oi) @ ''\" vs \"''
                            @ showOpt (title ri) @ ''\"'') t)
         | _ \<Rightarrow> Inl undefinedTitle)
      else Inr t)"

definition compareServers :: "spec \<Rightarrow> spec \<Rightarrow> tally \<Rightarrow> tally" where
  "compareServers original restored t =
     (let origServers = lengthOr0 (servers original);
          restServers = lengthOr0 (servers restored)
      in if origServers \<noteq> restServers
         then bump (pushLine (''Missing Servers: Expected '' @ showNat origServers
                              @ '', got '' @ showNat restServers) t)
         else t)"

definition compareTags :: "spec \<Rightarrow> spec \<Rightarrow> tally \<Rightarrow> tally" where
  "compareTags original restored t =
     (let origTags = lengthOr0 (tags original);
          restTags = lengthOr0 (tags restored)
      in if origTags \<noteq> restTags
         then bump (pushLine (''Missing Tags: Expected '' @ showNat origTags
                              @ '', got '' @ showNat restTags) t)
         else t)"

definition compareComponents :: "spec \<Rightarrow> spec \<Rightarrow> tally \<Rightarrow> tally" where
  "compareComponents original restored t =
     (let origComps = lengthOr0 (components original);
          restComps = lengthOr0 (components restored)
      in if origComps \<noteq> restComps
         then (pushLine (''Missing Components: Expected '' @ showNat origComps
                         @ '', got '' @ showNat restComps) t)
                \<lparr>missingCount := missingCount t + (int origComps - int restComps)\<rparr>
         else t)"

definition compareMethod ::
  "string \<Rightarrow> (string \<times> operation) list \<Rightarrow> string \<times> operation \<Rightarrow> tally \<Rightarrow> tally" where
  "compareMethod p restItem m t =
     (case map_of restItem (fst m) of
        None \<Rightarrow> bump (pushLine (''Missing Method: '' @ toUpperCase (fst m) @ '' '' @ p) t)
      | Some restOp \<Rightarrow>
          (let origOp = snd m;
               t1 = (if truthy (operationId origOp) \<and> operationId origOp \<noteq> operationId restOp
                     then pushLine (''OpID Mismatch '' @ p @ '' '' @ fst m @ '': ''
                                    @ showOpt (operationId origOp) @ '' vs ''
                                    @ showOpt (operationId restOp)) t
                     else t)
           in if lengthOr0 (security origOp) \<noteq> lengthOr0 (security restOp)
              then pushLine (''Security mismatch in '' @ toUpperCase (fst m) @ '' '' @ p) t1
              else t1))"

definition comparePath ::
  "spec \<Rightarrow> string \<times> (string \<times> operation) list \<Rightarrow> tally \<Rightarrow> tally" where
  "comparePath restored pi t =
     (case (case paths restored of None \<Rightarrow> None | Some ps \<Rightarrow> map_of ps (fst pi)) of
        None \<Rightarrow> bump (pushLine (''Missing Path: '' @ fst pi) t)
      | Some restItem \<Rightarrow> fold (compareMethod (fst pi) restItem) (snd pi) t)"

definition comparePaths :: "spec \<Rightarrow> spec \<Rightarrow> tally \<Rightarrow> tally" where
  "comparePaths original restored t =
     fold (comparePath restored) (case paths original of None \<Rightarrow> [] | Some ps \<Rightarrow> ps) t"

text \<open>The statements between the parsing and the \<^verbatim>\<open>return\<close> of the
  \<^verbatim>\<open>try\<close> block.\<close>

definition compareSpecs :: "spec \<Rightarrow> spec \<Rightarrow> exn + fidelity" where
  "compareSpecs original restored =
     (case compareInfo original restored \<lparr>lines = [], missingCount = 0\<rparr> of
        Inl e \<Rightarrow> Inl e
      | Inr t1 \<Rightarrow>
          (let t = comparePaths original restored
                     (compareComponents original restored
                        (compareTags original restored
                           (compareServers original restored t1)))
           in Inr \<lparr>score = max 0 (100 - missingCount t * 5), report = lines t\<rparr>))"

text \<open>
  The textual codecs and the document projector and extractor are outside the
  transformation engine (they need a DOM and a YAML parser). They are parameters of the
  model, each one returning a value or throwing; the \<^verbatim>\<open>options\<close> argument is part
  of the closures.
\<close>

record pipeline =
  parseContent :: "string \<Rightarrow> exn + spec"
  convertSpecToDoc :: "string \<Rightarrow> exn + string"
  parseHTMLDocToSpec :: "string \<Rightarrow> exn + string"
  jsonParse :: "string \<Rightarrow> exn + spec"

text \<open>The \<^verbatim>\<open>try\<close> block.\<close>

definition tryBlock :: "pipeline \<Rightarrow> string \<Rightarrow> exn + fidelity" where
  "tryBlock px originalContent =
     (case parseContent px originalContent of
        Inl e \<Rightarrow> Inl e
      | Inr original \<Rightarrow>
          (case convertSpecToDoc px originalContent of
             Inl e \<Rightarrow> Inl e
           | Inr generatedDoc \<Rightarrow>
               (case parseHTMLDocToSpec px generatedDoc of
                  Inl e \<Rightarrow> Inl e
                | Inr restoredJson \<Rightarrow>
                    (case jsonParse px restoredJson of
                       Inl e \<Rightarrow> Inl e
                     | Inr restored \<Rightarrow> compareSpecs original restored))))"

text \<open>\<^verbatim>\<open>validateSpecFidelity\<close>: the \<^verbatim>\<open>try\<close> block and its handler. The result is a
  sum, as for any JavaScript function: \<open>Inl\<close> would be an exception that reaches the
  caller.\<close>

definition validateSpecFidelity :: "pipeline \<Rightarrow> string \<Rightarrow> exn + fidelity" where
  "validateSpecFidelity px originalContent =
     (case tryBlock px originalContent of
        Inl e \<Rightarrow> Inr \<lparr>score = 0, report = [''Validation Failed: '' @ message e]\<rparr>
      | Inr r \<Rightarrow> Inr r)"

section \<open>Auxiliary notions and example inputs\<close>

text \<open>The names used to state properties of one call of \<^verbatim>\<open>flattenSchema\<close>: whether
  the call re-enters a reference that is being expanded on its branch, the node it
  descends into otherwise (the resolved node after the \<^verbatim>\<open>allOf\<close> merge), and the
  visited set as the call leaves it.\<close>

definition reentry :: "schema \<Rightarrow> registry \<Rightarrow> string set \<Rightarrow> bool" where
  "reentry s R V =
     (truthy (resolvedFrom (resolveSchema s R)) \<and> the (resolvedFrom (resolveSchema s R)) \<in> V)"

definition resolvedNode :: "schema \<Rightarrow> registry \<Rightarrow> schema" where
  "resolvedNode s R = applyAllOf R (node (resolveSchema s R))"

definition visitedAfter :: "schema \<Rightarrow> registry \<Rightarrow> string set \<Rightarrow> string set" where
  "visitedAfter s R V =
     (if truthy (resolvedFrom (resolveSchema s R))
      then insert (the (resolvedFrom (resolveSchema s R))) V else V)"

text \<open>A flattener that only ever appends to the row array it is given.\<close>

definition appends :: "flattener \<Rightarrow> bool" where
  "appends self =
     (\<forall>s R p q rows V rows' V'.
        self s R p q rows V = Some (rows', V') \<longrightarrow> (\<exists>ys. rows' = rows @ ys))"

text \<open>What one \<^verbatim>\<open>allOf\<close> branch contributes to the merge.\<close>

definition branchProps :: "registry \<Rightarrow> schema \<Rightarrow> (string \<times> schema) list" where
  "branchProps R b =
     (case s_properties (node (resolveSchema b R)) of None \<Rightarrow> [] | Some ps \<Rightarrow> ps)"

definition branchRequired :: "registry \<Rightarrow> schema \<Rightarrow> string list" where
  "branchRequired R b =
     (case s_required (node (resolveSchema b R)) of None \<Rightarrow> [] | Some rs \<Rightarrow> rs)"

definition branchMap :: "registry \<Rightarrow> schema \<Rightarrow> schema addl option" where
  "branchMap R b = s_additionalProperties (node (resolveSchema b R))"

text \<open>\<^verbatim>\<open>Object.assign\<close> puts a name that the target does not have yet after the
  names it has: the order of the names of a merged object.\<close>

definition appendNew :: "string \<Rightarrow> string list \<Rightarrow> string list" where
  "appendNew k ks = (if k \<in> set ks then ks else ks @ [k])"

text \<open>Schema literals: \<^verbatim>\<open>{ type: t }\<close>, \<^verbatim>\<open>{ properties: ps }\<close> and
  \<^verbatim>\<open>{ $ref: '#/components/schemas/' + name }\<close>.\<close>

definition typed :: "string \<Rightarrow> schema" where
  "typed t = set_type (Some t) emptyObj"

definition object :: "(string \<times> schema) list \<Rightarrow> schema" where
  "object ps = set_properties (Some ps) emptyObj"

definition refTo :: "string \<Rightarrow> schema" where
  "refTo name = set_ref (Some (''#/components/schemas/'' @ name)) emptyObj"

definition plainRow :: "string \<Rightarrow> string \<Rightarrow> bool \<Rightarrow> row" where
  "plainRow p t q =
     \<lparr>path = p, type = t, required = q, description = [], enum = None, example = None,
      ref = None\<rparr>"

text \<open>The end-to-end example of the specification:
  \<^verbatim>\<open>{type:"object", required:["id"], properties:{id:{type:"integer"},
  tags:{type:"array", items:{type:"string"}}}}\<close>.\<close>

definition exampleTree :: schema where
  "exampleTree =
     set_required (Some [''id''])
       (set_properties
          (Some [(''id'', typed ''integer''),
                 (''tags'', set_items (Some (typed ''string'')) (typed ''array''))])
          (typed ''object''))"

definition exampleRows :: "row list" where
  "exampleRows =
     [plainRow ''id'' ''integer'' True, plainRow ''tags'' ''array'' False,
      plainRow ''tags[]'' ''string'' False]"

text \<open>Component \<open>A\<close> whose property references \<open>B\<close>, and \<open>B\<close> whose property
  references \<open>A\<close>.\<close>

definition registryAB :: registry where
  "registryAB =
     Some [(''A'', object [(''prop'', refTo ''B'')]), (''B'', object [(''prop'', refTo ''A'')])]"

text \<open>A component whose property reaches the component again through an
  \<^verbatim>\<open>allOf\<close> branch: \<^verbatim>\<open>Node: { properties: { next: { allOf: [{ $ref: Node }] } } }\<close>.\<close>

definition allOfNode :: schema where
  "allOfNode = set_allOf (Some [refTo ''Node'']) emptyObj"

definition registryAllOf :: registry where
  "registryAllOf = Some [(''Node'', object [(''next'', allOfNode)])]"

text \<open>The \<^verbatim>\<open>oneOf\<close> and \<^verbatim>\<open>allOf\<close> examples of the specification.\<close>

definition oneOfSame :: schema where
  "oneOfSame =
     set_oneOf (Some [object [(''id'', typed ''string'')], object [(''id'', typed ''string'')]])
       emptyObj"

definition oneOfDiff :: schema where
  "oneOfDiff =
     set_oneOf (Some [object [(''id'', typed ''string'')], object [(''id'', typed ''integer'')]])
       emptyObj"

definition allOfExample :: schema where
  "allOfExample =
     set_allOf (Some [object [(''x'', typed ''string'')], object [(''x'', typed ''integer'')]])
       emptyObj"

text \<open>Two \<^verbatim>\<open>allOf\<close> branches that each give a map-value schema.\<close>

definition allOfMapExample :: schema where
  "allOfMapExample =
     set_allOf
       (Some [set_additionalProperties (Some (AddlSchema (typed ''string''))) emptyObj,
              set_additionalProperties (Some (AddlSchema (typed ''integer''))) emptyObj])
       emptyObj"

text \<open>A node with both \<^verbatim>\<open>oneOf\<close> and \<^verbatim>\<open>anyOf\<close>, one with an empty
  \<^verbatim>\<open>oneOf\<close>, and a \<^verbatim>\<open>oneOf\<close> of two maps with
  \<^verbatim>\<open>additionalProperties: true\<close>.\<close>

definition oneOfAndAnyOf :: schema where
  "oneOfAndAnyOf =
     set_anyOf (Some [object [(''b'', typed ''integer'')]])
       (set_oneOf (Some [object [(''a'', typed ''string'')]]) emptyObj)"

definition emptyOneOf :: schema where
  "emptyOneOf =
     set_anyOf (Some [object [(''b'', typed ''integer'')]]) (set_oneOf (Some []) emptyObj)"

definition anyMap :: schema where
  "anyMap = set_additionalProperties (Some (AddlBool True)) emptyObj"

definition oneOfAnyMaps :: schema where
  "oneOfAnyMaps = set_oneOf (Some [anyMap, anyMap]) emptyObj"

text \<open>Two self-referencing components used in sibling properties, and one component
  used by two sibling properties.\<close>

definition registrySiblings :: registry where
  "registrySiblings =
     Some [(''L'', object [(''self'', refTo ''L'')]),
           (''R'', object [(''self'', refTo ''R'')]),
           (''S'', typed ''string'')]"

definition twoCycles :: schema where
  "twoCycles = object [(''l'', refTo ''L''), (''r'', refTo ''R'')]"

definition reused :: schema where
  "reused = object [(''a'', refTo ''S''), (''b'', refTo ''S'')]"

text \<open>Two sibling properties, each the entry of a reference cycle: \<open>L\<close> refers to itself
  in a property, \<open>Node\<close> reaches itself through an \<^verbatim>\<open>allOf\<close> branch.\<close>

definition registryTwo :: registry where
  "registryTwo =
     Some [(''L'', object [(''self'', refTo ''L'')]),
           (''Node'', object [(''next'', allOfNode)])]"

definition siblingCycles :: schema where
  "siblingCycles = object [(''l'', refTo ''L''), (''r'', refTo ''Node'')]"

text \<open>Documents for the scoring example: three paths in the original, one of them in the
  restored document.\<close>

definition anOperation :: operation where
  "anOperation = \<lparr>operationId = None, security = None\<rparr>"

definition original3 :: spec where
  "original3 =
     \<lparr>info = Some \<lparr>title = Some ''Pets''\<rparr>, servers = None, tags = None,
      components = Some [(''Pet'', typed ''object'')],
      paths = Some [(''/a'', [(''get'', anOperation)]), (''/b'', [(''get'', anOperation)]),
                    (''/c'', [(''get'', anOperation)])]\<rparr>"

definition restored1 :: spec where
  "restored1 =
     \<lparr>info = Some \<lparr>title = Some ''Pets''\<rparr>, servers = None, tags = None,
      components = Some [(''Pet'', typed ''object'')],
      paths = Some [(''/a'', [(''get'', anOperation)])]\<rparr>"

text \<open>A pipeline whose first stage throws, and one that hands back two fixed documents.\<close>

definition failingPipeline :: pipeline where
  "failingPipeline =
     \<lparr>parseContent = (\<lambda>c. Inl (Exn ''Invalid format. Please provide valid JSON or YAML.'')),
      convertSpecToDoc = (\<lambda>c. Inr c), parseHTMLDocToSpec = (\<lambda>d. Inr d),
      jsonParse = (\<lambda>j. Inl (Exn ''Unexpected token''))\<rparr>"

definition fixedPipeline :: "spec \<Rightarrow> spec \<Rightarrow> pipeline" where
  "fixedPipeline original restored =
     \<lparr>parseContent = (\<lambda>c. Inr original), convertSpecToDoc = (\<lambda>c. Inr c),
      parseHTMLDocToSpec = (\<lambda>d. Inr d), jsonParse = (\<lambda>j. Inr restored)\<rparr>"

text \<open>Restored documents for the scoring example with one component more than the
  original, an original without \<^verbatim>\<open>info\<close>, and a pair of documents that differ only
  in one extra restored component.\<close>

definition restoredExtra :: spec where
  "restoredExtra =
     restored1\<lparr>components := Some [(''Pet'', typed ''object''), (''Extra'', typed ''object'')]\<rparr>"

definition restoredFewer :: spec where
  "restoredFewer = restored1\<lparr>components := None\<rparr>"

definition originalNoInfo :: spec where
  "originalNoInfo = original3\<lparr>info := None\<rparr>"

definition bare :: spec where
  "bare =
     \<lparr>info = Some \<lparr>title = Some ''Pets''\<rparr>, servers = None, tags = None,
      components = None, paths = None\<rparr>"

definition bareExtra :: spec where
  "bareExtra = bare\<lparr>components := Some [(''Extra'', typed ''object'')]\<rparr>"

text \<open>The report of the handler of \<^verbatim>\<open>validateSpecFidelity\<close>.\<close>

definition failed :: "exn \<Rightarrow> fidelity" where
  "failed e = \<lparr>score = 0, report = [''Validation Failed: '' @ message e]\<rparr>"

text \<open>What a row can never change at the root of the reconstructed tree.\<close>

definition rootInv :: "schema \<Rightarrow> bool" where
  "rootInv root \<longleftrightarrow> s_description root = None \<and> s_ref root = None \<and>
     (s_type root = Some ''object'' \<or> s_type root = Some ''array'')"

text \<open>A path whose first segment is empty once a \<^verbatim>\<open>[]\<close> suffix is removed: the
  path starts with \<^verbatim>\<open>.\<close> or \<^verbatim>\<open>[].\<close>, or is \<^verbatim>\<open>[]\<close> itself.\<close>

definition rootArrayPath :: "string \<Rightarrow> bool" where
  "rootArrayPath p \<longleftrightarrow> p \<noteq> [] \<and>
     (hd (split CHR ''.'' p) = [] \<or> hd (split CHR ''.'' p) = ''[]'')"

section \<open>Schemas on which the cycle guard is enough\<close>

text \<open>The schemas directly inside a schema node, and the ones among them that
  \<^verbatim>\<open>flattenSchema\<close> is called on once the node is resolved and merged.\<close>

definition optList :: "'a list option \<Rightarrow> 'a list" where
  "optList x = (case x of None \<Rightarrow> [] | Some xs \<Rightarrow> xs)"

definition subs :: "schema \<Rightarrow> schema list" where
  "subs s =
     map snd (optList (s_properties s)) @
     (case s_additionalProperties s of Some (AddlSchema a) \<Rightarrow> [a] | _ \<Rightarrow> []) @
     (case s_items s of Some it \<Rightarrow> [it] | None \<Rightarrow> []) @
     optList (s_allOf s) @ optList (s_oneOf s) @ optList (s_anyOf s)"

definition kids :: "schema \<Rightarrow> schema list" where
  "kids r =
     polymorphic r @ map snd (optList (s_properties r)) @
     (case s_additionalProperties r of Some (AddlSchema a) \<Rightarrow> [a] | _ \<Rightarrow> []) @
     (case s_items r of Some it \<Rightarrow> [it] | None \<Rightarrow> [])"

lemma size_list_mem: "x \<in> set xs \<Longrightarrow> f x < size_list f xs"
  by (induction xs) auto

lemma size_props_mem: "(k, c) \<in> set ps \<Longrightarrow> size c < size_list (size_prod (\<lambda>x. 0) size) ps"
  using size_list_mem[of "(k, c)" ps "size_prod (\<lambda>x. 0) size"] by simp

lemma subs_size:
  assumes "c \<in> set (subs s)"
  shows "size c < size s"
proof (cases s)
  case (Schema x1 x2 x3 x4 x5 x6 x7 x8 x9 x10 x11 x12)
  from assms consider
      (props) ps k where "x4 = Some ps" "(k, c) \<in> set ps"
    | (addl) "x6 = Some (AddlSchema c)"
    | (items) "x7 = Some c"
    | (allOf) bs where "x8 = Some bs" "c \<in> set bs"
    | (oneOf) bs where "x9 = Some bs" "c \<in> set bs"
    | (anyOf) bs where "x10 = Some bs" "c \<in> set bs"
    unfolding Schema subs_def optList_def
    by (auto split: option.splits addl.splits)
  then show ?thesis
  proof cases
    case props
    with size_props_mem[OF props(2)] show ?thesis by (simp add: Schema)
  next
    case addl
    then show ?thesis by (simp add: Schema)
  next
    case items
    then show ?thesis by (simp add: Schema)
  next
    case allOf
    with size_list_mem[OF allOf(2), of size] show ?thesis by (simp add: Schema)
  next
    case oneOf
    with size_list_mem[OF oneOf(2), of size] show ?thesis by (simp add: Schema)
  next
    case anyOf
    with size_list_mem[OF anyOf(2), of size] show ?thesis by (simp add: Schema)
  qed
qed

text \<open>No \<^verbatim>\<open>allOf\<close> branch, anywhere in the schema, is a reference: the branches of
  every \<^verbatim>\<open>allOf\<close> are written out in place.\<close>

function allOfPlain :: "schema \<Rightarrow> bool" where
  "allOfPlain s =
     ((\<forall>b \<in> set (optList (s_allOf s)). \<not> truthy (s_ref b)) \<and>
      (\<forall>c \<in> set (subs s). allOfPlain c))"
  by pat_completeness auto
termination
  by (relation "measure size") (auto dest: subs_size)

declare allOfPlain.simps [simp del]

text \<open>The same for every component of the registry, none of which has the empty name
  (the guard ignores an empty \<^verbatim>\<open>_resolvedFrom\<close>).\<close>

definition regPlain :: "registry \<Rightarrow> bool" where
  "regPlain R =
     (case R of
        None \<Rightarrow> True
      | Some reg \<Rightarrow> list_all (\<lambda>kv. allOfPlain (snd kv)) reg \<and> map_of reg [] = None)"

definition names :: "registry \<Rightarrow> string set" where
  "names R = (case R of None \<Rightarrow> {} | Some reg \<Rightarrow> fst ` set reg)"

text \<open>A flattener that returns on a given schema, whatever the path, the flag and the
  rows.\<close>

definition succeedsOn :: "flattener \<Rightarrow> registry \<Rightarrow> string set \<Rightarrow> schema \<Rightarrow> bool" where
  "succeedsOn self R V c = (\<forall>p q rows. self c R p q rows V \<noteq> None)"

section \<open>Plain object trees and their reconstruction\<close>

text \<open>The property names that every JavaScript object inherits from
  \<^verbatim>\<open>Object.prototype\<close>: looking one up in a fresh \<^verbatim>\<open>{}\<close> finds the inherited
  value, not \<^verbatim>\<open>undefined\<close>.\<close>

definition prototypeNames :: "string list" where
  "prototypeNames =
     [''constructor'', ''__proto__'', ''hasOwnProperty'', ''isPrototypeOf'',
      ''propertyIsEnumerable'', ''toLocaleString'', ''toString'', ''valueOf'',
      ''__defineGetter__'', ''__defineSetter__'', ''__lookupGetter__'', ''__lookupSetter__'']"

text \<open>
  A property name that \<^verbatim>\<open>unflattenSchema\<close> reads back as one plain segment: not empty,
  without a dot, not ending in \<^verbatim>\<open>[]\<close>, and not one of the two map-key markers; and a
  name that JavaScript keeps in insertion order and does not inherit: not made of digits
  only, and not a name of \<^verbatim>\<open>Object.prototype\<close>.
\<close>

definition plainKey :: "string \<Rightarrow> bool" where
  "plainKey k \<longleftrightarrow>
     k \<noteq> [] \<and> CHR ''.'' \<notin> set k \<and> \<not> endsWith k ''[]'' \<and> k \<noteq> ''<key>'' \<and> k \<noteq> ''*'' \<and>
     (\<exists>c \<in> set k. c \<notin> set ''0123456789'') \<and> k \<notin> set prototypeNames"

text \<open>
  A node of a plain object tree: no reference, map, array items or composition; either an
  object (it has \<^verbatim>\<open>properties\<close>, with distinct plain names, and its type is absent or
  \<open>object\<close>) or a scalar leaf (no \<^verbatim>\<open>properties\<close>, and a type that is neither
  \<open>object\<close> nor \<open>array\<close>).
\<close>

definition plainNode :: "schema \<Rightarrow> bool" where
  "plainNode s \<longleftrightarrow>
     s_ref s = None \<and> s_additionalProperties s = None \<and> s_items s = None \<and>
     s_allOf s = None \<and> s_oneOf s = None \<and> s_anyOf s = None \<and>
     (case s_properties s of
        None \<Rightarrow> nodeType s \<noteq> ''object'' \<and> nodeType s \<noteq> ''array''
      | Some ps \<Rightarrow> nodeType s = ''object'' \<and> distinct (map fst ps) \<and> list_all plainKey (map fst ps))"

function plainTree :: "schema \<Rightarrow> bool" where
  "plainTree s = (plainNode s \<and> (\<forall>c \<in> set (subs s). plainTree c))"
  by pat_completeness auto
termination
  by (relation "measure size") (auto dest: subs_size)

declare plainTree.simps [simp del]

text \<open>
  What \<^verbatim>\<open>unflattenSchema\<close> rebuilds from the rows of a node of a plain tree: the
  node's type (inferred when absent), its description (empty when absent) and its
  properties, rebuilt in turn. The \<^verbatim>\<open>required\<close> list, \<^verbatim>\<open>enum\<close> and
  \<^verbatim>\<open>example\<close> are not in the result. The root has no row, so it keeps no description.
\<close>

function rebuilt :: "schema \<Rightarrow> schema" where
  "rebuilt s =
     set_properties
       (case s_properties s of
          None \<Rightarrow> None
        | Some ps \<Rightarrow> Some (map (\<lambda>kc. (fst kc, rebuilt (snd kc))) ps))
       (set_description (Some (orElse (s_description s) []))
          (set_type (Some (nodeType s)) emptyObj))"
  by pat_completeness auto
termination
proof (relation "measure size")
  show "wf (measure size)" by simp
next
  fix s :: schema and ps kc
  assume "s_properties s = Some ps" and "kc \<in> set ps"
  then have "snd kc \<in> set (subs s)" by (simp add: subs_def optList_def)
  then show "(snd kc, s) \<in> measure size" by (simp add: subs_size)
qed

declare rebuilt.simps [simp del]

definition rebuiltRoot :: "schema \<Rightarrow> schema" where
  "rebuiltRoot t =
     set_properties (Some (map (\<lambda>kc. (fst kc, rebuilt (snd kc))) (optList (s_properties t))))
       (set_type (Some ''object'') emptyObj)"

text \<open>A path as the list of its segments, joined by dots.\<close>

fun join :: "string list \<Rightarrow> string" where
  "join [] = []"
| "join [s] = s"
| "join (s # t # ts) = s @ ''.'' @ join (t # ts)"

text \<open>
  The rows of a node of a plain tree and of everything below it, in pre-order, each with
  the segments that lead to it from some ancestor: \<open>pre\<close> are the segments from the root
  (they make the row's path), \<open>rel\<close> those from the ancestor.
\<close>

function relRows :: "string list \<Rightarrow> string list \<Rightarrow> bool \<Rightarrow> schema \<Rightarrow> (string list \<times> row) list" where
  "relRows pre rel q c =
     (rel, nodeRow c (join pre) q None) #
     concat (map (\<lambda>kc. relRows (pre @ [fst kc]) (rel @ [fst kc])
                          (fst kc \<in> set (requiredFields c)) (snd kc))
               (optList (s_properties c)))"
  by pat_completeness auto
termination
proof (relation "measure (\<lambda>(pre, rel, q, c). size c)")
  show "wf (measure (\<lambda>(pre, rel, q, c). size c))" by simp
next
  fix pre rel :: "string list" and q :: bool and c :: schema and kc
  assume "kc \<in> set (optList (s_properties c))"
  then have "snd kc \<in> set (subs c)" by (simp add: subs_def)
  then show "((pre @ [fst kc], rel @ [fst kc], fst kc \<in> set (requiredFields c), snd kc),
              pre, rel, q, c) \<in> measure (\<lambda>(pre, rel, q, c). size c)"
    by (simp add: subs_size)
qed

declare relRows.simps [simp del]

definition kidsRel :: "string list \<Rightarrow> string list \<Rightarrow> schema \<Rightarrow> (string list \<times> row) list" where
  "kidsRel pre rel c =
     concat (map (\<lambda>kc. relRows (pre @ [fst kc]) (rel @ [fst kc])
                          (fst kc \<in> set (requiredFields c)) (snd kc))
               (optList (s_properties c)))"

text \<open>Rows applied to a node one after the other, each along its own segments.\<close>

fun walkAll :: "(string list \<times> row) list \<Rightarrow> schema \<Rightarrow> error + schema" where
  "walkAll [] n = Inr n"
| "walkAll (x # xs) n =
     (case walk (snd x) (fst x) n of Inl e \<Rightarrow> Inl e | Inr n' \<Rightarrow> walkAll xs n')"

text \<open>No row so far has a path at or below the given segments.\<close>

definition fresh :: "string list \<Rightarrow> row list \<Rightarrow> bool" where
  "fresh pre rows =
     (\<forall>x \<in> set rows. \<forall>ext. list_all plainKey ext \<longrightarrow> path x \<noteq> join (pre @ ext))"

text \<open>A tree with nested objects, for the round trip.\<close>

definition personTree :: schema where
  "personTree =
     set_required (Some [''id''])
       (object [(''id'', typed ''integer''),
                (''name'', object [(''first'', typed ''string''),
                                   (''last'', set_description (Some ''Family name'')
                                                (typed ''string''))])])"

text \<open>A flattener that, on a plain tree at a path no earlier row is at or below, adds
  exactly the rows of the tree.\<close>

definition rowsCorrect :: "flattener \<Rightarrow> registry \<Rightarrow> bool" where
  "rowsCorrect self R =
     (\<forall>c pre q rows V rows' V'.
        plainTree c \<longrightarrow> pre \<noteq> [] \<longrightarrow> list_all plainKey pre \<longrightarrow> fresh pre rows \<longrightarrow>
        self c R (join pre) q rows V = Some (rows', V') \<longrightarrow>
        rows' = rows @ map snd (relRows pre pre q c))"

text \<open>The deductions of the path comparison, counted directly: the paths of the original
  that the restored document lacks, and the methods it lacks on the paths it has.\<close>

definition restoredItem :: "spec \<Rightarrow> string \<Rightarrow> (string \<times> operation) list option" where
  "restoredItem restored p = (case paths restored of None \<Rightarrow> None | Some ps \<Rightarrow> map_of ps p)"

definition missingMethods :: "(string \<times> operation) list \<Rightarrow> (string \<times> operation) list \<Rightarrow> nat" where
  "missingMethods restItem ms = length (filter (\<lambda>m. map_of restItem (fst m) = None) ms)"

definition pathDeduction :: "spec \<Rightarrow> string \<times> (string \<times> operation) list \<Rightarrow> nat" where
  "pathDeduction restored pi =
     (case restoredItem restored (fst pi) of
        None \<Rightarrow> 1
      | Some restItem \<Rightarrow> missingMethods restItem (snd pi))"

definition pathDeductions :: "spec \<Rightarrow> spec \<Rightarrow> nat" where
  "pathDeductions original restored =
     sum_list (map (pathDeduction restored) (optList (paths original)))"

section \<open>Field access\<close>

text \<open>Reading a field after writing one.\<close>

lemma sel_set [simp]:
  "s_ref (set_ref v0 s) = v0"
  "s_type (set_ref v0 s) = s_type s"
  "s_description (set_ref v0 s) = s_description s"
  "s_properties (set_ref v0 s) = s_properties s"
  "s_required (set_ref v0 s) = s_required s"
  "s_additionalProperties (set_ref v0 s) = s_additionalProperties s"
  "s_items (set_ref v0 s) = s_items s"
  "s_allOf (set_ref v0 s) = s_allOf s"
  "s_oneOf (set_ref v0 s) = s_oneOf s"
  "s_anyOf (set_ref v0 s) = s_anyOf s"
  "s_enum (set_ref v0 s) = s_enum s"
  "s_example (set_ref v0 s) = s_example s"
  "s_ref (set_type v1 s) = s_ref s"
  "s_type (set_type v1 s) = v1"
  "s_description (set_type v1 s) = s_description s"
  "s_properties (set_type v1 s) = s_properties s"
  "s_required (set_type v1 s) = s_required s"
  "s_additionalProperties (set_type v1 s) = s_additionalProperties s"
  "s_items (set_type v1 s) = s_items s"
  "s_allOf (set_type v1 s) = s_allOf s"
  "s_oneOf (set_type v1 s) = s_oneOf s"
  "s_anyOf (set_type v1 s) = s_anyOf s"
  "s_enum (set_type v1 s) = s_enum s"
  "s_example (set_type v1 s) = s_example s"
  "s_ref (set_description v2 s) = s_ref s"
  "s_type (set_description v2 s) = s_type s"
  "s_description (set_description v2 s) = v2"
  "s_properties (set_description v2 s) = s_properties s"
  "s_required (set_description v2 s) = s_required s"
  "s_additionalProperties (set_description v2 s) = s_additionalProperties s"
  "s_items (set_description v2 s) = s_items s"
  "s_allOf (set_description v2 s) = s_allOf s"
  "s_oneOf (set_description v2 s) = s_oneOf s"
  "s_anyOf (set_description v2 s) = s_anyOf s"
  "s_enum (set_description v2 s) = s_enum s"
  "s_example (set_description v2 s) = s_example s"
  "s_ref (set_properties v3 s) = s_ref s"
  "s_type (set_properties v3 s) = s_type s"
  "s_description (set_properties v3 s) = s_description s"
  "s_properties (set_properties v3 s) = v3"
  "s_required (set_properties v3 s) = s_required s"
  "s_additionalProperties (set_properties v3 s) = s_additionalProperties s"
  "s_items (set_properties v3 s) = s_items s"
  "s_allOf (set_properties v3 s) = s_allOf s"
  "s_oneOf (set_properties v3 s) = s_oneOf s"
  "s_anyOf (set_properties v3 s) = s_anyOf s"
  "s_enum (set_properties v3 s) = s_enum s"
  "s_example (set_properties v3 s) = s_example s"
  "s_ref (set_required v4 s) = s_ref s"
  "s_type (set_required v4 s) = s_type s"
  "s_description (set_required v4 s) = s_description s"
  "s_properties (set_required v4 s) = s_properties s"
  "s_required (set_required v4 s) = v4"
  "s_additionalProperties (set_required v4 s) = s_additionalProperties s"
  "s_items (set_required v4 s) = s_items s"
  "s_allOf (set_required v4 s) = s_allOf s"
  "s_oneOf (set_required v4 s) = s_oneOf s"
  "s_anyOf (set_required v4 s) = s_anyOf s"
  "s_enum (set_required v4 s) = s_enum s"
  "s_example (set_required v4 s) = s_example s"
  "s_ref (set_additionalProperties v5 s) = s_ref s"
  "s_type (set_additionalProperties v5 s) = s_type s"
  "s_description (set_additionalProperties v5 s) = s_description s"
  "s_properties (set_additionalProperties v5 s) = s_properties s"
  "s_required (set_additionalProperties v5 s) = s_required s"
  "s_additionalProperties (set_additionalProperties v5 s) = v5"
  "s_items (set_additionalProperties v5 s) = s_items s"
  "s_allOf (set_additionalProperties v5 s) = s_allOf s"
  "s_oneOf (set_additionalProperties v5 s) = s_oneOf s"
  "s_anyOf (set_additionalProperties v5 s) = s_anyOf s"
  "s_enum (set_additionalProperties v5 s) = s_enum s"
  "s_example (set_additionalProperties v5 s) = s_example s"
  "s_ref (set_items v6 s) = s_ref s"
  "s_type (set_items v6 s) = s_type s"
  "s_description (set_items v6 s) = s_description s"
  "s_properties (set_items v6 s) = s_properties s"
  "s_required (set_items v6 s) = s_required s"
  "s_additionalProperties (set_items v6 s) = s_additionalProperties s"
  "s_items (set_items v6 s) = v6"
  "s_allOf (set_items v6 s) = s_allOf s"
  "s_oneOf (set_items v6 s) = s_oneOf s"
  "s_anyOf (set_items v6 s) = s_anyOf s"
  "s_enum (set_items v6 s) = s_enum s"
  "s_example (set_items v6 s) = s_example s"
  "s_ref (set_allOf v7 s) = s_ref s"
  "s_type (set_allOf v7 s) = s_type s"
  "s_description (set_allOf v7 s) = s_description s"
  "s_properties (set_allOf v7 s) = s_properties s"
  "s_required (set_allOf v7 s) = s_required s"
  "s_additionalProperties (set_allOf v7 s) = s_additionalProperties s"
  "s_items (set_allOf v7 s) = s_items s"
  "s_allOf (set_allOf v7 s) = v7"
  "s_oneOf (set_allOf v7 s) = s_oneOf s"
  "s_anyOf (set_allOf v7 s) = s_anyOf s"
  "s_enum (set_allOf v7 s) = s_enum s"
  "s_example (set_allOf v7 s) = s_example s"
  "s_ref (set_oneOf v8 s) = s_ref s"
  "s_type (set_oneOf v8 s) = s_type s"
  "s_description (set_oneOf v8 s) = s_description s"
  "s_properties (set_oneOf v8 s) = s_properties s"
  "s_required (set_oneOf v8 s) = s_required s"
  "s_additionalProperties (set_oneOf v8 s) = s_additionalProperties s"
  "s_items (set_oneOf v8 s) = s_items s"
  "s_allOf (set_oneOf v8 s) = s_allOf s"
  "s_oneOf (set_oneOf v8 s) = v8"
  "s_anyOf (set_oneOf v8 s) = s_anyOf s"
  "s_enum (set_oneOf v8 s) = s_enum s"
  "s_example (set_oneOf v8 s) = s_example s"
  "s_ref (set_anyOf v9 s) = s_ref s"
  "s_type (set_anyOf v9 s) = s_type s"
  "s_description (set_anyOf v9 s) = s_description s"
  "s_properties (set_anyOf v9 s) = s_properties s"
  "s_required (set_anyOf v9 s) = s_required s"
  "s_additionalProperties (set_anyOf v9 s) = s_additionalProperties s"
  "s_items (set_anyOf v9 s) = s_items s"
  "s_allOf (set_anyOf v9 s) = s_allOf s"
  "s_oneOf (set_anyOf v9 s) = s_oneOf s"
  "s_anyOf (set_anyOf v9 s) = v9"
  "s_enum (set_anyOf v9 s) = s_enum s"
  "s_example (set_anyOf v9 s) = s_example s"
  by (cases s; simp)+

lemma sel_emptyObj [simp]:
  "s_ref emptyObj = None"
  "s_type emptyObj = None"
  "s_description emptyObj = None"
  "s_properties emptyObj = None"
  "s_required emptyObj = None"
  "s_additionalProperties emptyObj = None"
  "s_items emptyObj = None"
  "s_allOf emptyObj = None"
  "s_oneOf emptyObj = None"
  "s_anyOf emptyObj = None"
  "s_enum emptyObj = None"
  "s_example emptyObj = None"
  by (simp_all add: emptyObj_def)

section \<open>The flattener only appends, and keeps the visited set of its caller\<close>

lemma forEachM_appends:
  assumes "\<And>x s s'. f x s = Some s' \<Longrightarrow> \<exists>ys. s' = s @ ys"
  shows "forEachM f xs s = Some s' \<Longrightarrow> \<exists>ys. s' = s @ ys"
proof (induction xs arbitrary: s)
  case Nil
  then show ?case by simp
next
  case (Cons x xs)
  from Cons.prems obtain s1 where a: "f x s = Some s1" and b: "forEachM f xs s1 = Some s'"
    by (auto split: option.splits)
  from assms[OF a] obtain ys where "s1 = s @ ys" by blast
  moreover from Cons.IH[OF b] obtain zs where "s' = s1 @ zs" by blast
  ultimately show ?case by simp
qed

lemma appendsD:
  "appends self \<Longrightarrow> self s R p q rows V = Some (rows', V') \<Longrightarrow> \<exists>ys. rows' = rows @ ys"
  unfolding appends_def by blast

lemma appends_fst:
  "appends self \<Longrightarrow> map_option fst (self s R p q rows V) = Some rows'
     \<Longrightarrow> \<exists>ys. rows' = rows @ ys"
  by (auto dest: appendsD)

lemma flattenPoly_appends:
  "appends self \<Longrightarrow> flattenPoly self r R p q V rows = Some rows' \<Longrightarrow> \<exists>ys. rows' = rows @ ys"
  unfolding flattenPoly_def
  by (erule forEachM_appends[rotated]) (rule appends_fst)

lemma flattenProps_appends:
  "appends self \<Longrightarrow> flattenProps self r R p V rows = Some rows' \<Longrightarrow> \<exists>ys. rows' = rows @ ys"
  unfolding flattenProps_def
  apply (cases "s_properties r")
   apply simp
  apply simp
  apply (erule forEachM_appends[rotated])
  apply (auto dest: appendsD)
  done

lemma flattenMap_appends:
  "appends self \<Longrightarrow> flattenMap self r R p V rows = Some rows' \<Longrightarrow> \<exists>ys. rows' = rows @ ys"
  unfolding flattenMap_def
  by (auto split: option.splits addl.splits bool.splits if_splits dest: appendsD)

lemma flattenItems_appends:
  "appends self \<Longrightarrow> flattenItems self r R p V rows = Some rows' \<Longrightarrow> \<exists>ys. rows' = rows @ ys"
  unfolding flattenItems_def
  by (auto split: option.splits if_splits dest: appendsD)

lemma pushNodeRow_appends: "\<exists>ys. pushNodeRow r p q oref rows = rows @ ys"
  unfolding pushNodeRow_def by simp

lemma flattenStep_reentry:
  "reentry s R V \<Longrightarrow> flattenStep self s R p q rows V =
     Some (rows @ [cycleRow p (the (resolvedFrom (resolveSchema s R))) q (s_ref s)], V)"
  by (simp add: flattenStep_def reentry_def Let_def)

lemma flattenStep_descend:
  "\<not> reentry s R V \<Longrightarrow> flattenStep self s R p q rows V =
     Option.bind (flattenPoly self (resolvedNode s R) R p q (visitedAfter s R V) rows) (\<lambda>rows1.
     Option.bind (flattenProps self (resolvedNode s R) R p (visitedAfter s R V)
                    (pushNodeRow (resolvedNode s R) p q (s_ref s) rows1)) (\<lambda>rows3.
     Option.bind (flattenMap self (resolvedNode s R) R p (visitedAfter s R V) rows3) (\<lambda>rows4.
     Option.bind (flattenItems self (resolvedNode s R) R p (visitedAfter s R V) rows4) (\<lambda>rows5.
     Some (rows5, visitedAfter s R V)))))"
  unfolding flattenStep_def reentry_def visitedAfter_def resolvedNode_def Let_def
  by (simp split: option.splits)

lemma flattenStep_phases:
  assumes "\<not> reentry s R V" and "flattenStep self s R p q rows V = Some (rows', V')"
  shows "\<exists>rows1 rows3 rows4.
    flattenPoly self (resolvedNode s R) R p q (visitedAfter s R V) rows = Some rows1 \<and>
    flattenProps self (resolvedNode s R) R p (visitedAfter s R V)
       (pushNodeRow (resolvedNode s R) p q (s_ref s) rows1) = Some rows3 \<and>
    flattenMap self (resolvedNode s R) R p (visitedAfter s R V) rows3 = Some rows4 \<and>
    flattenItems self (resolvedNode s R) R p (visitedAfter s R V) rows4 = Some rows' \<and>
    V' = visitedAfter s R V"
  using assms(2) unfolding flattenStep_descend[OF assms(1)] bind_eq_Some_conv
  by (elim exE conjE) simp

lemma flattenStep_appends:
  assumes "appends self"
  shows "appends (flattenStep self)"
  unfolding appends_def
proof (intro allI impI)
  fix s R p q rows V rows' V'
  assume a: "flattenStep self s R p q rows V = Some (rows', V')"
  show "\<exists>ys. rows' = rows @ ys"
  proof (cases "reentry s R V")
    case True
    with a show ?thesis by (auto simp: flattenStep_reentry)
  next
    case False
    from flattenStep_phases[OF False a] obtain rows1 rows3 rows4 where
      1: "flattenPoly self (resolvedNode s R) R p q (visitedAfter s R V) rows = Some rows1" and
      2: "flattenProps self (resolvedNode s R) R p (visitedAfter s R V)
            (pushNodeRow (resolvedNode s R) p q (s_ref s) rows1) = Some rows3" and
      3: "flattenMap self (resolvedNode s R) R p (visitedAfter s R V) rows3 = Some rows4" and
      4: "flattenItems self (resolvedNode s R) R p (visitedAfter s R V) rows4 = Some rows'"
      by (elim exE conjE)
    from flattenPoly_appends[OF assms 1] obtain y1 where "rows1 = rows @ y1" by blast
    moreover from pushNodeRow_appends obtain y2
      where "pushNodeRow (resolvedNode s R) p q (s_ref s) rows1 = rows1 @ y2" by blast
    moreover from flattenProps_appends[OF assms 2] obtain y3
      where "rows3 = pushNodeRow (resolvedNode s R) p q (s_ref s) rows1 @ y3" by blast
    moreover from flattenMap_appends[OF assms 3] obtain y4 where "rows4 = rows3 @ y4" by blast
    moreover from flattenItems_appends[OF assms 4] obtain y5 where "rows' = rows4 @ y5" by blast
    ultimately show ?thesis by simp
  qed
qed

lemma flattenSchema_appends_all: "appends (flattenSchema n)"
proof (induction n)
  case 0
  show ?case by (simp add: appends_def)
next
  case (Suc n)
  then show ?case by (simp add: flattenStep_appends)
qed

lemma flattenSchema_appends:
  "flattenSchema n s R p q rows V = Some (rows', V') \<Longrightarrow> \<exists>ys. rows' = rows @ ys"
  using flattenSchema_appends_all appendsD by blast

lemma flattenSchema_visited:
  assumes "flattenSchema n s R p q rows V = Some (rows', V')"
  shows "V' = visitedAfter s R V"
proof (cases n)
  case 0
  with assms show ?thesis by simp
next
  case (Suc m)
  show ?thesis
  proof (cases "reentry s R V")
    case True
    with assms Suc show ?thesis
      by (auto simp: flattenStep_reentry reentry_def visitedAfter_def)
  next
    case False
    from assms Suc have "flattenStep (flattenSchema m) s R p q rows V = Some (rows', V')"
      by simp
    from flattenStep_phases[OF False this] show ?thesis by (elim exE conjE)
  qed
qed

section \<open>The score as a formula\<close>

lemma missingCount_pushLine [simp]: "missingCount (pushLine l t) = missingCount t"
  by (simp add: pushLine_def)

lemma missingCount_bump [simp]: "missingCount (bump t) = missingCount t + 1"
  by (simp add: bump_def)

lemma compareMethod_count:
  "missingCount (compareMethod p restItem m t) =
     missingCount t + (if map_of restItem (fst m) = None then 1 else 0)"
  by (simp add: compareMethod_def Let_def split: option.splits)

lemma compareMethods_count:
  "missingCount (fold (compareMethod p restItem) ms t) =
     missingCount t + int (missingMethods restItem ms)"
  by (induction ms arbitrary: t) (simp_all add: missingMethods_def compareMethod_count)

lemma comparePath_count:
  "missingCount (comparePath restored pi t) = missingCount t + int (pathDeduction restored pi)"
  by (simp add: comparePath_def pathDeduction_def restoredItem_def compareMethods_count
      split: option.splits)

lemma comparePaths_count:
  "missingCount (comparePaths original restored t) =
     missingCount t + int (pathDeductions original restored)"
proof -
  have "missingCount (fold (comparePath restored) ps t) =
          missingCount t + int (sum_list (map (pathDeduction restored) ps))" for ps
    by (induction ps arbitrary: t) (simp_all add: comparePath_count)
  then show ?thesis
    by (simp add: comparePaths_def pathDeductions_def optList_def)
qed

text \<open>
  Whenever the comparison returns, the score is 100 less 5 for each deduction, not below
  0, where the deductions are: one for a different number of servers, one for a different
  number of tags, one for each path of the original that the restored document lacks, one
  for each method it lacks on a path it has, and the number of components of the original
  less that of the restored document. The last term is negative when the restored
  document has more components.
\<close>

lemma score_formula:
  assumes "compareSpecs original restored = Inr f"
  shows "score f =
     max 0 (100 - 5 *
       ((if lengthOr0 (servers original) \<noteq> lengthOr0 (servers restored) then 1 else 0) +
        (if lengthOr0 (tags original) \<noteq> lengthOr0 (tags restored) then 1 else 0) +
        (int (lengthOr0 (components original)) - int (lengthOr0 (components restored))) +
        int (pathDeductions original restored)))"
proof -
  from assms obtain t1 where
    t1: "compareInfo original restored \<lparr>lines = [], missingCount = 0\<rparr> = Inr t1" and
    f: "f = \<lparr>score = max 0 (100 - missingCount
                 (comparePaths original restored
                    (compareComponents original restored
                       (compareTags original restored
                          (compareServers original restored t1)))) * 5),
             report = lines (comparePaths original restored
                    (compareComponents original restored
                       (compareTags original restored
                          (compareServers original restored t1))))\<rparr>"
    by (auto simp: compareSpecs_def Let_def split: sum.splits)
  from t1 have m1: "missingCount t1 = 0"
    by (auto simp: compareInfo_def split: if_splits option.splits prod.splits)
  have s: "missingCount (compareServers original restored t) = missingCount t +
        (if lengthOr0 (servers original) \<noteq> lengthOr0 (servers restored) then 1 else 0)" for t
    by (simp add: compareServers_def Let_def)
  have g: "missingCount (compareTags original restored t) = missingCount t +
        (if lengthOr0 (tags original) \<noteq> lengthOr0 (tags restored) then 1 else 0)" for t
    by (simp add: compareTags_def Let_def)
  have c: "missingCount (compareComponents original restored t) = missingCount t +
        (int (lengthOr0 (components original)) - int (lengthOr0 (components restored)))" for t
    by (simp add: compareComponents_def Let_def pushLine_def)
  show ?thesis
    by (simp add: f comparePaths_count c g s m1 algebra_simps)
qed

section \<open>The validator\<close>

text \<open>
  C2. The claim is that a component-count mismatch costs the absolute difference of the
  counts and that a title mismatch costs nothing. The code adds the signed difference
  \<^verbatim>\<open>origComps - restComps\<close>: with two of three paths missing and one component more
  in the restored document the score is 95, not 85, and a restored document that differs
  from the original only by an extra component scores 105. A title mismatch against an
  original without \<^verbatim>\<open>info\<close> throws while the message is built, and the score is 0.
  With one component fewer in the restored document the scores of the specification's
  example, 90 and 85, are what the code returns, and whenever the comparison returns the
  score is the formula of the claim with the signed difference in place of the absolute
  one (\<open>score_formula\<close>).
\<close>

theorem score_signed_component_difference:
  "validateSpecFidelity (fixedPipeline original3 restoredExtra) ''{}'' =
     Inr \<lparr>score = 95,
          report = [''Missing Components: Expected 1, got 2'', ''Missing Path: /b'',
                    ''Missing Path: /c'']\<rparr> \<and>
   validateSpecFidelity (fixedPipeline bare bareExtra) ''{}'' =
     Inr \<lparr>score = 105, report = [''Missing Components: Expected 0, got 1'']\<rparr> \<and>
   validateSpecFidelity (fixedPipeline originalNoInfo restored1) ''{}'' =
     Inr (failed undefinedTitle) \<and>
   validateSpecFidelity (fixedPipeline original3 restored1) ''{}'' =
     Inr \<lparr>score = 90, report = [''Missing Path: /b'', ''Missing Path: /c'']\<rparr> \<and>
   validateSpecFidelity (fixedPipeline original3 restoredFewer) ''{}'' =
     Inr \<lparr>score = 85,
          report = [''Missing Components: Expected 1, got 0'', ''Missing Path: /b'',
                    ''Missing Path: /c'']\<rparr>"
  by code_simp

text \<open>
  C8. \<^verbatim>\<open>validateSpecFidelity\<close> always returns a report and never throws: whatever the
  stages of the pipeline do, the result is \<open>Inr\<close>. When a stage, or the comparison
  itself, throws an exception \<open>e\<close>, the report has score 0 and the single line
  \<^verbatim>\<open>Validation Failed: \<close> followed by the message of \<open>e\<close>.
\<close>

theorem validate_never_throws:
  "(\<exists>r. validateSpecFidelity px c = Inr r) \<and>
   (tryBlock px c = Inl e \<longrightarrow>
      validateSpecFidelity px c =
        Inr \<lparr>score = 0, report = [''Validation Failed: '' @ message e]\<rparr>) \<and>
   (parseContent px c = Inl e \<longrightarrow> tryBlock px c = Inl e) \<and>
   (parseContent px c = Inr original \<and> convertSpecToDoc px c = Inl e
      \<longrightarrow> tryBlock px c = Inl e) \<and>
   (parseContent px c = Inr original \<and> convertSpecToDoc px c = Inr doc \<and>
    parseHTMLDocToSpec px doc = Inl e \<longrightarrow> tryBlock px c = Inl e) \<and>
   (parseContent px c = Inr original \<and> convertSpecToDoc px c = Inr doc \<and>
    parseHTMLDocToSpec px doc = Inr json \<and> jsonParse px json = Inl e
      \<longrightarrow> tryBlock px c = Inl e) \<and>
   (parseContent px c = Inr original \<and> convertSpecToDoc px c = Inr doc \<and>
    parseHTMLDocToSpec px doc = Inr json \<and> jsonParse px json = Inr restored \<and>
    compareSpecs original restored = Inl e \<longrightarrow> tryBlock px c = Inl e)"
  by (auto simp: validateSpecFidelity_def tryBlock_def split: sum.splits)

theorem validate_never_throws_witness:
  "validateSpecFidelity failingPipeline ''not a document'' =
     Inr \<lparr>score = 0,
          report = [''Validation Failed: Invalid format. Please provide valid JSON or YAML.'']\<rparr>"
proof -
  have p: "parseContent failingPipeline ''not a document''
             = Inl (Exn ''Invalid format. Please provide valid JSON or YAML.'')"
    by (simp add: failingPipeline_def)
  from validate_never_throws[of failingPipeline "''not a document''"
      "Exn ''Invalid format. Please provide valid JSON or YAML.''"] p
  show ?thesis by simp
qed

section \<open>The allOf merge\<close>

lemma map_of_assign: "map_of (assign t s) = map_of t ++ map_of (rev s)"
proof (induction s arbitrary: t)
  case Nil
  show ?case by (simp add: assign_def)
next
  case (Cons kv s)
  obtain k v where kv: "kv = (k, v)" by (cases kv)
  have "assign t (kv # s) = assign (AList.update k v t) s"
    by (simp add: assign_def kv)
  moreover have "map_of (AList.update k v t) = (map_of t)(k \<mapsto> v)"
    by (rule update_conv')
  ultimately have "map_of (assign t (kv # s)) = (map_of t)(k \<mapsto> v) ++ map_of (rev s)"
    by (simp only: Cons.IH)
  also have "\<dots> = map_of t ++ map_of (rev (kv # s))"
    by (simp add: kv)
  finally show ?case .
qed

lemma mergeStep_properties:
  "m_properties (mergeStep R b m) = assign (m_properties m) (branchProps R b)"
  by (simp add: mergeStep_def branchProps_def Let_def assign_def split: option.splits)

lemma mergeStep_required:
  "m_required (mergeStep R b m) = m_required m @ branchRequired R b"
  by (simp add: mergeStep_def branchRequired_def Let_def split: option.splits)

lemma mergeStep_map:
  "m_additionalProperties (mergeStep R b m) =
     (if addlTruthy (branchMap R b) then branchMap R b else m_additionalProperties m)"
  by (simp add: mergeStep_def branchMap_def Let_def split: option.splits)

lemma mergeAllOf_snoc: "mergeAllOf R (bs @ [b]) = mergeStep R b (mergeAllOf R bs)"
  by (simp add: mergeAllOf_def)

lemma mergeAllOf_Nil:
  "mergeAllOf R [] = \<lparr>m_properties = [], m_required = [], m_additionalProperties = None\<rparr>"
  by (simp add: mergeAllOf_def)

lemma mergeAllOf_properties:
  "map_of (m_properties (mergeAllOf R bs)) k =
     (if filter (\<lambda>b. k \<in> fst ` set (branchProps R b)) bs = [] then None
      else map_of (rev (branchProps R (last (filter (\<lambda>b. k \<in> fst ` set (branchProps R b)) bs))))
             k)"
proof (induction bs rule: rev_induct)
  case Nil
  show ?case by (simp add: mergeAllOf_Nil)
next
  case (snoc b bs)
  show ?case
  proof (cases "k \<in> fst ` set (branchProps R b)")
    case True
    then have "k \<in> dom (map_of (rev (branchProps R b)))"
      by (simp add: dom_map_of_conv_image_fst)
    then obtain v where v: "map_of (rev (branchProps R b)) k = Some v" by blast
    have f: "filter (\<lambda>b. k \<in> fst ` set (branchProps R b)) (bs @ [b])
               = filter (\<lambda>b. k \<in> fst ` set (branchProps R b)) bs @ [b]"
      using True by simp
    have "map_of (m_properties (mergeAllOf R (bs @ [b]))) k = Some v"
      by (simp add: mergeAllOf_snoc mergeStep_properties map_of_assign map_add_def v)
    then show ?thesis
      unfolding f by (simp add: v)
  next
    case False
    then have "k \<notin> dom (map_of (rev (branchProps R b)))"
      by (simp add: dom_map_of_conv_image_fst)
    then have n: "map_of (rev (branchProps R b)) k = None" by blast
    have "map_of (m_properties (mergeAllOf R (bs @ [b]))) k
            = map_of (m_properties (mergeAllOf R bs)) k"
      by (simp add: mergeAllOf_snoc mergeStep_properties map_of_assign map_add_def n)
    with snoc False show ?thesis by simp
  qed
qed

lemma mergeAllOf_required:
  "m_required (mergeAllOf R bs) = concat (map (branchRequired R) bs)"
  by (induction bs rule: rev_induct)
     (simp_all add: mergeAllOf_Nil mergeAllOf_snoc mergeStep_required)

lemma mergeAllOf_map:
  "m_additionalProperties (mergeAllOf R bs) =
     (if filter (\<lambda>b. addlTruthy (branchMap R b)) bs = [] then None
      else branchMap R (last (filter (\<lambda>b. addlTruthy (branchMap R b)) bs)))"
proof (induction bs rule: rev_induct)
  case Nil
  show ?case by (simp add: mergeAllOf_Nil)
next
  case (snoc b bs)
  show ?case
  proof (cases "addlTruthy (branchMap R b)")
    case True
    then show ?thesis
      by (simp add: mergeAllOf_snoc mergeStep_map)
  next
    case False
    with snoc show ?thesis
      by (simp add: mergeAllOf_snoc mergeStep_map)
  qed
qed

lemma keys_assign:
  "map fst (assign t s) = fold appendNew (map fst s) (map fst t)"
proof (induction s arbitrary: t)
  case Nil
  show ?case by (simp add: assign_def)
next
  case (Cons kv s)
  obtain k v where kv: "kv = (k, v)" by (cases kv)
  have "assign t (kv # s) = assign (AList.update k v t) s"
    by (simp add: assign_def kv)
  then show ?case
    by (simp add: Cons.IH kv update_keys appendNew_def)
qed

lemma distinct_assign:
  "distinct (map fst t) \<Longrightarrow> distinct (map fst (assign t s))"
proof (induction s arbitrary: t)
  case Nil
  then show ?case by (simp add: assign_def)
next
  case (Cons kv s)
  obtain k v where kv: "kv = (k, v)" by (cases kv)
  have "assign t (kv # s) = assign (AList.update k v t) s"
    by (simp add: assign_def kv)
  with Cons show ?case by (simp add: distinct_update)
qed

lemma mergeAllOf_keys:
  "map fst (m_properties (mergeAllOf R bs)) =
     fold appendNew (concat (map (\<lambda>b. map fst (branchProps R b)) bs)) []"
  by (induction bs rule: rev_induct)
     (simp_all add: mergeAllOf_Nil mergeAllOf_snoc mergeStep_properties keys_assign)

lemma mergeAllOf_distinct:
  "distinct (map fst (m_properties (mergeAllOf R bs)))"
  by (induction bs rule: rev_induct)
     (simp_all add: mergeAllOf_Nil mergeAllOf_snoc mergeStep_properties distinct_assign)

lemma set_additionalProperties_same:
  "set_additionalProperties (s_additionalProperties r) r = r"
  by (cases r) simp

lemma resolvedNode_merged:
  assumes "s_allOf (node (resolveSchema s R)) = Some bs"
  shows "resolvedNode s R =
     set_additionalProperties
       (if filter (\<lambda>b. addlTruthy (branchMap R b)) bs = []
        then s_additionalProperties (node (resolveSchema s R))
        else branchMap R (last (filter (\<lambda>b. addlTruthy (branchMap R b)) bs)))
       (set_required (Some (concat (map (branchRequired R) bs)))
          (set_properties (Some (m_properties (mergeAllOf R bs))) (node (resolveSchema s R))))"
proof (cases "filter (\<lambda>b. addlTruthy (branchMap R b)) bs = []")
  case True
  then have "m_additionalProperties (mergeAllOf R bs) = None"
    by (simp add: mergeAllOf_map)
  with assms True show ?thesis
    by (cases "node (resolveSchema s R)")
       (simp add: resolvedNode_def applyAllOf_def spreadMerged_def Let_def mergeAllOf_required)
next
  case False
  let ?b = "last (filter (\<lambda>b. addlTruthy (branchMap R b)) bs)"
  from False have m: "m_additionalProperties (mergeAllOf R bs) = branchMap R ?b"
    by (simp add: mergeAllOf_map)
  from False have "?b \<in> set (filter (\<lambda>b. addlTruthy (branchMap R b)) bs)"
    by (rule last_in_set)
  then have "addlTruthy (branchMap R ?b)" by simp
  then obtain a where a: "branchMap R ?b = Some a" by (cases "branchMap R ?b") auto
  from assms False show ?thesis
    by (cases "node (resolveSchema s R)")
       (simp add: resolvedNode_def applyAllOf_def spreadMerged_def Let_def mergeAllOf_required
          m a)
qed

lemma resolvedNode_no_allOf:
  "s_allOf (node (resolveSchema s R)) = None \<Longrightarrow> resolvedNode s R = node (resolveSchema s R)"
  by (simp add: resolvedNode_def applyAllOf_def)

text \<open>
  C6. When the resolved schema of a node has an \<^verbatim>\<open>allOf\<close> array \<open>bs\<close>, the node that
  is flattened is that schema with three keys replaced: \<^verbatim>\<open>properties\<close> by the merged
  properties, \<^verbatim>\<open>required\<close> by the concatenation of the branches' lists in array order,
  and \<^verbatim>\<open>additionalProperties\<close> by the map-value schema of the last branch, in array
  order, that has one (the node keeps its own when no branch has one). Every other key is
  left as it is, and a node without \<^verbatim>\<open>allOf\<close> is flattened unchanged. In the merged
  properties the names are distinct and stand in the order in which the branches first
  define them, and the value of a name is the one given by the last branch, in array
  order, that defines it (\<open>map_of (rev ps)\<close> is the lookup in the properties \<open>ps\<close> of
  that branch: it is \<open>map_of ps\<close> when the names in \<open>ps\<close> are distinct). It is this node
  that the call goes on with: its \<^verbatim>\<open>oneOf\<close>/\<^verbatim>\<open>anyOf\<close> branches, its own row, its
  properties, its map value and its items. The example
  \<^verbatim>\<open>allOf:[{properties:{x:{type:string}}}, {properties:{x:{type:integer}}}]\<close> flattens to
  the single row \<open>x\<close> of type \<open>integer\<close>, and two branches with the map-value schemas
  \<^verbatim>\<open>{type:string}\<close> and \<^verbatim>\<open>{type:integer}\<close> to the single row \<^verbatim>\<open><key>\<close> of type
  \<open>integer\<close>.
\<close>

theorem allOf_merge_last_wins:
  "(s_allOf (node (resolveSchema s R)) = Some bs \<longrightarrow>
      resolvedNode s R =
        set_additionalProperties
          (if filter (\<lambda>b. addlTruthy (branchMap R b)) bs = []
           then s_additionalProperties (node (resolveSchema s R))
           else branchMap R (last (filter (\<lambda>b. addlTruthy (branchMap R b)) bs)))
          (set_required (Some (concat (map (branchRequired R) bs)))
             (set_properties (Some (m_properties (mergeAllOf R bs)))
                (node (resolveSchema s R))))) \<and>
   (s_allOf (node (resolveSchema s R)) = None \<longrightarrow>
      resolvedNode s R = node (resolveSchema s R)) \<and>
   map fst (m_properties (mergeAllOf R bs)) =
     fold appendNew (concat (map (\<lambda>b. map fst (branchProps R b)) bs)) [] \<and>
   distinct (map fst (m_properties (mergeAllOf R bs))) \<and>
   map_of (m_properties (mergeAllOf R bs)) k =
     (if filter (\<lambda>b. k \<in> fst ` set (branchProps R b)) bs = [] then None
      else map_of (rev (branchProps R (last (filter (\<lambda>b. k \<in> fst ` set (branchProps R b)) bs))))
             k) \<and>
   (\<not> reentry s R V \<longrightarrow>
      flattenSchema (Suc n) s R p q rows V =
        Option.bind (flattenPoly (flattenSchema n) (resolvedNode s R) R p q
                       (visitedAfter s R V) rows) (\<lambda>rows1.
        Option.bind (flattenProps (flattenSchema n) (resolvedNode s R) R p (visitedAfter s R V)
                       (pushNodeRow (resolvedNode s R) p q (s_ref s) rows1)) (\<lambda>rows3.
        Option.bind (flattenMap (flattenSchema n) (resolvedNode s R) R p (visitedAfter s R V)
                       rows3) (\<lambda>rows4.
        Option.bind (flattenItems (flattenSchema n) (resolvedNode s R) R p (visitedAfter s R V)
                       rows4) (\<lambda>rows5.
        Some (rows5, visitedAfter s R V)))))) \<and>
   flattenRows 2 allOfExample None = Some [plainRow ''x'' ''integer'' False] \<and>
   flattenRows 2 allOfMapExample None = Some [plainRow ''<key>'' ''integer'' False]"
proof -
  have 1: "flattenRows 2 allOfExample None = Some [plainRow ''x'' ''integer'' False]"
    by code_simp
  have 2: "flattenRows 2 allOfMapExample None = Some [plainRow ''<key>'' ''integer'' False]"
    by code_simp
  have 3: "\<not> reentry s R V \<longrightarrow>
      flattenSchema (Suc n) s R p q rows V =
        Option.bind (flattenPoly (flattenSchema n) (resolvedNode s R) R p q
                       (visitedAfter s R V) rows) (\<lambda>rows1.
        Option.bind (flattenProps (flattenSchema n) (resolvedNode s R) R p (visitedAfter s R V)
                       (pushNodeRow (resolvedNode s R) p q (s_ref s) rows1)) (\<lambda>rows3.
        Option.bind (flattenMap (flattenSchema n) (resolvedNode s R) R p (visitedAfter s R V)
                       rows3) (\<lambda>rows4.
        Option.bind (flattenItems (flattenSchema n) (resolvedNode s R) R p (visitedAfter s R V)
                       rows4) (\<lambda>rows5.
        Some (rows5, visitedAfter s R V)))))"
    by (simp add: flattenStep_descend)
  have 4: "s_allOf (node (resolveSchema s R)) = Some bs \<longrightarrow>
      resolvedNode s R =
        set_additionalProperties
          (if filter (\<lambda>b. addlTruthy (branchMap R b)) bs = []
           then s_additionalProperties (node (resolveSchema s R))
           else branchMap R (last (filter (\<lambda>b. addlTruthy (branchMap R b)) bs)))
          (set_required (Some (concat (map (branchRequired R) bs)))
             (set_properties (Some (m_properties (mergeAllOf R bs)))
                (node (resolveSchema s R))))"
    using resolvedNode_merged by blast
  have 5: "s_allOf (node (resolveSchema s R)) = None \<longrightarrow>
      resolvedNode s R = node (resolveSchema s R)"
    using resolvedNode_no_allOf by blast
  note 6 = mergeAllOf_keys[of R bs] mergeAllOf_distinct[of R bs] mergeAllOf_properties[of R bs k]
  from 1 2 3 4 5 6 show ?thesis by (intro conjI)
qed

theorem allOf_merge_last_wins_witness:
  "resolvedNode allOfMapExample None =
     set_additionalProperties (Some (AddlSchema (typed ''integer'')))
       (set_required (Some []) (set_properties (Some []) allOfMapExample)) \<and>
   resolvedNode (typed ''string'') None = typed ''string'' \<and>
   map_option fst (flattenSchema (Suc 1) allOfExample None [] False [] {})
     = Some [plainRow ''x'' ''integer'' False]"
proof -
  let ?bs = "[set_additionalProperties (Some (AddlSchema (typed ''string''))) emptyObj,
              set_additionalProperties (Some (AddlSchema (typed ''integer''))) emptyObj]"
  note t = allOf_merge_last_wins[of allOfMapExample None ?bs]
  have a: "s_allOf (node (resolveSchema allOfMapExample None)) = Some ?bs"
    by code_simp
  have b: "set_additionalProperties
          (if filter (\<lambda>b. addlTruthy (branchMap None b)) ?bs = []
           then s_additionalProperties (node (resolveSchema allOfMapExample None))
           else branchMap None (last (filter (\<lambda>b. addlTruthy (branchMap None b)) ?bs)))
          (set_required (Some (concat (map (branchRequired None) ?bs)))
             (set_properties (Some (m_properties (mergeAllOf None ?bs)))
                (node (resolveSchema allOfMapExample None))))
        = set_additionalProperties (Some (AddlSchema (typed ''integer'')))
            (set_required (Some []) (set_properties (Some []) allOfMapExample))"
    by code_simp
  from t a b have 1: "resolvedNode allOfMapExample None =
     set_additionalProperties (Some (AddlSchema (typed ''integer'')))
       (set_required (Some []) (set_properties (Some []) allOfMapExample))"
    by simp
  have c: "s_allOf (node (resolveSchema (typed ''string'') None)) = None"
    by code_simp
  have d: "node (resolveSchema (typed ''string'') None) = typed ''string''"
    by code_simp
  from allOf_merge_last_wins[of "typed ''string''" None] c d
  have 2: "resolvedNode (typed ''string'') None = typed ''string''"
    by simp
  have e: "\<not> reentry allOfExample None {}" by (simp add: reentry_def)
  from allOf_merge_last_wins[of allOfExample None _ _ "{}" 1 "[]" False "[]"] e
  have f: "flattenSchema (Suc 1) allOfExample None [] False [] {} =
        Option.bind (flattenPoly (flattenSchema 1) (resolvedNode allOfExample None) None [] False
                       (visitedAfter allOfExample None {}) []) (\<lambda>rows1.
        Option.bind (flattenProps (flattenSchema 1) (resolvedNode allOfExample None) None []
                       (visitedAfter allOfExample None {})
                       (pushNodeRow (resolvedNode allOfExample None) [] False
                          (s_ref allOfExample) rows1)) (\<lambda>rows3.
        Option.bind (flattenMap (flattenSchema 1) (resolvedNode allOfExample None) None []
                       (visitedAfter allOfExample None {}) rows3) (\<lambda>rows4.
        Option.bind (flattenItems (flattenSchema 1) (resolvedNode allOfExample None) None []
                       (visitedAfter allOfExample None {}) rows4) (\<lambda>rows5.
        Some (rows5, visitedAfter allOfExample None {})))))"
    by blast
  have 3: "map_option fst (flattenSchema (Suc 1) allOfExample None [] False [] {})
     = Some [plainRow ''x'' ''integer'' False]"
    unfolding f by code_simp
  from 1 2 3 show ?thesis by (intro conjI)
qed


section \<open>One call of the flattener\<close>

text \<open>One call of \<^verbatim>\<open>flattenSchema\<close>, written out: either the marker row of a
  re-entry, or the four fan-outs with the node's own row after the first. Every fan-out
  hands its children the visited set of the caller with the caller's own name added, and
  drops the set a child returns.\<close>

lemma flattenSchema_Suc_eq:
  "flattenSchema (Suc n) s R p q rows V =
     (if reentry s R V
      then Some (rows @ [cycleRow p (the (resolvedFrom (resolveSchema s R))) q (s_ref s)], V)
      else
        Option.bind (flattenPoly (flattenSchema n) (resolvedNode s R) R p q (visitedAfter s R V) rows) (\<lambda>rows1.
        Option.bind (flattenProps (flattenSchema n) (resolvedNode s R) R p (visitedAfter s R V)
                       (pushNodeRow (resolvedNode s R) p q (s_ref s) rows1)) (\<lambda>rows3.
        Option.bind (flattenMap (flattenSchema n) (resolvedNode s R) R p (visitedAfter s R V) rows3) (\<lambda>rows4.
        Option.bind (flattenItems (flattenSchema n) (resolvedNode s R) R p (visitedAfter s R V) rows4) (\<lambda>rows5.
        Some (rows5, visitedAfter s R V))))))"
  by (simp add: flattenStep_reentry flattenStep_descend)

lemma emitsRow_iff:
  "emitsRow r p oref = (p \<noteq> [] \<or> truthy oref \<or> nodeType r = ''array'')"
  by (auto simp: emitsRow_def)

lemma pushNodeRow_rule:
  "pushNodeRow r p q oref rows =
     (if (p \<noteq> [] \<or> truthy oref \<or> nodeType r = ''array'') \<and>
         \<not> (\<exists>x \<in> set rows. path x = p \<and> type x = nodeType r
                \<and> description x = orElse (s_description r) [])
      then rows @ [\<lparr>path = p, type = nodeType r, required = q,
                    description = orElse (s_description r) [], enum = s_enum r,
                    example = s_example r, ref = oref\<rparr>]
      else rows)"
  by (simp add: pushNodeRow_def emitsRow_iff rowExists_def nodeRow_def)

text \<open>
  C5, as amended. A call that re-enters a reference being expanded on its branch appends
  the marker row and nothing else. Any other call takes the \<^verbatim>\<open>oneOf\<close> array of the
  resolved node, or its \<^verbatim>\<open>anyOf\<close> array when the node has no \<^verbatim>\<open>oneOf\<close> key, and
  runs \<^verbatim>\<open>flattenSchema\<close> on every element of that one array, in array order, each with
  the path and the required flag of the node itself and each on the rows the previous
  branch left, to which it only appends. The node's own row comes next: it is appended
  exactly when the path is not empty, or the node carried a \<^verbatim>\<open>$ref\<close>, or its type is
  \<open>array\<close>, and no row with the same path, type and description is among the rows so
  far, whatever the other fields of that row. The properties, the map value and the items
  of the node follow. With two branches that both define \<open>id\<close> of type \<open>string\<close> the
  result is one row for \<open>id\<close>; with types \<open>string\<close> and \<open>integer\<close> it is two rows.
\<close>

theorem oneOf_anyOf_branches_then_own_row:
  "flattenSchema (Suc n) s R p q rows V =
     (if reentry s R V
      then Some (rows @ [cycleRow p (the (resolvedFrom (resolveSchema s R))) q (s_ref s)], V)
      else
        Option.bind
          (forEachM (\<lambda>b rs. map_option fst (flattenSchema n b R p q rs (visitedAfter s R V)))
             (case s_oneOf (resolvedNode s R) of
                Some bs \<Rightarrow> bs
              | None \<Rightarrow> (case s_anyOf (resolvedNode s R) of Some bs \<Rightarrow> bs | None \<Rightarrow> []))
             rows) (\<lambda>rows1.
        Option.bind
          (flattenProps (flattenSchema n) (resolvedNode s R) R p (visitedAfter s R V)
             (if (p \<noteq> [] \<or> truthy (s_ref s) \<or> nodeType (resolvedNode s R) = ''array'') \<and>
                 \<not> (\<exists>x \<in> set rows1. path x = p \<and> type x = nodeType (resolvedNode s R)
                        \<and> description x = orElse (s_description (resolvedNode s R)) [])
              then rows1 @ [\<lparr>path = p, type = nodeType (resolvedNode s R), required = q,
                              description = orElse (s_description (resolvedNode s R)) [],
                              enum = s_enum (resolvedNode s R),
                              example = s_example (resolvedNode s R), ref = s_ref s\<rparr>]
              else rows1)) (\<lambda>rows3.
        Option.bind
          (flattenMap (flattenSchema n) (resolvedNode s R) R p (visitedAfter s R V) rows3)
          (\<lambda>rows4.
        Option.bind
          (flattenItems (flattenSchema n) (resolvedNode s R) R p (visitedAfter s R V) rows4)
          (\<lambda>rows5. Some (rows5, visitedAfter s R V)))))) \<and>
   (flattenSchema n b R p q rs W = Some (rs', W') \<longrightarrow> (\<exists>ys. rs' = rs @ ys)) \<and>
   flattenRows 3 oneOfSame None = Some [plainRow ''id'' ''string'' False] \<and>
   flattenRows 3 oneOfDiff None =
     Some [plainRow ''id'' ''string'' False, plainRow ''id'' ''integer'' False]"
proof -
  have 1: "flattenRows 3 oneOfSame None = Some [plainRow ''id'' ''string'' False]"
    by code_simp
  have 2: "flattenRows 3 oneOfDiff None =
             Some [plainRow ''id'' ''string'' False, plainRow ''id'' ''integer'' False]"
    by code_simp
  have 3: "flattenSchema n b R p q rs W = Some (rs', W') \<longrightarrow> (\<exists>ys. rs' = rs @ ys)"
    using flattenSchema_appends by blast
  note 4 = flattenSchema_Suc_eq[of n s R p q rows V, unfolded flattenPoly_def polymorphic_def
      pushNodeRow_rule]
  from 4 3 1 2 show ?thesis by (intro conjI)
qed

theorem oneOf_anyOf_branches_then_own_row_witness:
  "map_option fst (flattenSchema (Suc 2) oneOfSame None [] False [] {})
     = Some [plainRow ''id'' ''string'' False] \<and>
   map_option fst (flattenSchema (Suc 0) (typed ''string'') None ''id'' False
                     [plainRow ''id'' ''string'' False] {})
     = Some [plainRow ''id'' ''string'' False] \<and>
   map_option fst (flattenSchema (Suc 0) (typed ''integer'') None ''id'' False
                     [plainRow ''id'' ''string'' False] {})
     = Some [plainRow ''id'' ''string'' False, plainRow ''id'' ''integer'' False]"
  unfolding oneOf_anyOf_branches_then_own_row[THEN conjunct1]
  by code_simp

text \<open>The claim as stated fails on a node that has both keys: the branches of
  \<^verbatim>\<open>anyOf\<close> are not visited when there is a \<^verbatim>\<open>oneOf\<close>, even an empty one. And rows
  other than a node's own are appended without the test for an identical row: two
  \<^verbatim>\<open>oneOf\<close> branches with \<^verbatim>\<open>additionalProperties: true\<close> leave two identical
  rows.\<close>

theorem anyOf_skipped_counterexample:
  "flattenRows 3 oneOfAndAnyOf None = Some [plainRow ''a'' ''string'' False] \<and>
   flattenRows 3 emptyOneOf None = Some [] \<and>
   flattenRows 3 oneOfAnyMaps None = Some [anyRow ''<key>'', anyRow ''<key>'']"
  by code_simp


text \<open>
  C7, as amended. A call that re-enters a reference being expanded on its branch appends
  the marker row and nothing else. Any other call appends the row of its node, after the
  rows of the \<^verbatim>\<open>oneOf\<close>/\<^verbatim>\<open>anyOf\<close> branches and before those of the node's
  properties, map value and items, exactly when the path is not empty, or the node carried
  a \<^verbatim>\<open>$ref\<close>, or its type is \<open>array\<close>, and no row with the same path, type and
  description is there already. So at the root (empty path) a node without \<^verbatim>\<open>$ref\<close>
  gets a row only if it is an array: a scalar root, which has nothing below it, leaves the
  rows as they were. The type of the row is the node's type, or, when the node has none
  (or an empty one), \<open>object\<close> if it has properties and \<open>string\<close> otherwise.
\<close>

theorem node_row_rule:
  "flattenSchema (Suc n) s R p q rows V =
     (if reentry s R V
      then Some (rows @ [cycleRow p (the (resolvedFrom (resolveSchema s R))) q (s_ref s)], V)
      else
        Option.bind
          (flattenPoly (flattenSchema n) (resolvedNode s R) R p q (visitedAfter s R V) rows)
          (\<lambda>rows1.
        Option.bind
          (flattenProps (flattenSchema n) (resolvedNode s R) R p (visitedAfter s R V)
             (if (p \<noteq> [] \<or> truthy (s_ref s) \<or> nodeType (resolvedNode s R) = ''array'') \<and>
                 \<not> (\<exists>x \<in> set rows1. path x = p \<and> type x = nodeType (resolvedNode s R)
                        \<and> description x = orElse (s_description (resolvedNode s R)) [])
              then rows1 @ [\<lparr>path = p, type = nodeType (resolvedNode s R), required = q,
                              description = orElse (s_description (resolvedNode s R)) [],
                              enum = s_enum (resolvedNode s R),
                              example = s_example (resolvedNode s R), ref = s_ref s\<rparr>]
              else rows1)) (\<lambda>rows3.
        Option.bind
          (flattenMap (flattenSchema n) (resolvedNode s R) R p (visitedAfter s R V) rows3)
          (\<lambda>rows4.
        Option.bind
          (flattenItems (flattenSchema n) (resolvedNode s R) R p (visitedAfter s R V) rows4)
          (\<lambda>rows5. Some (rows5, visitedAfter s R V)))))) \<and>
   nodeType r =
     (if truthy (s_type r) then the (s_type r)
      else if s_properties r \<noteq> None then ''object'' else ''string'') \<and>
   (\<not> truthy (s_ref s) \<and> nodeType s \<noteq> ''array'' \<and> s_properties s = None \<and>
    \<not> addlTruthy (s_additionalProperties s) \<and>
    s_allOf s = None \<and> s_oneOf s = None \<and> s_anyOf s = None \<longrightarrow>
      flattenSchema (Suc n) s R [] q rows V = Some (rows, V))"
proof -
  have 1: "nodeType r =
     (if truthy (s_type r) then the (s_type r)
      else if s_properties r \<noteq> None then ''object'' else ''string'')"
    by (cases "s_type r") (simp_all add: nodeType_def)
  note 2 = flattenSchema_Suc_eq[of n s R p q rows V, unfolded pushNodeRow_rule]
  have 3: "flattenSchema (Suc n) s R [] q rows V = Some (rows, V)"
    if a: "\<not> truthy (s_ref s)" "nodeType s \<noteq> ''array''" "s_properties s = None"
      "\<not> addlTruthy (s_additionalProperties s)"
      "s_allOf s = None" "s_oneOf s = None" "s_anyOf s = None"
  proof -
    from a(1) have r: "resolveSchema s R = \<lparr>node = s, resolvedFrom = None, originalRef = None\<rparr>"
      by (simp add: resolveSchema_def)
    then have b: "\<not> reentry s R V" "visitedAfter s R V = V"
      by (simp_all add: reentry_def visitedAfter_def)
    from r a(5) have c: "resolvedNode s R = s"
      by (simp add: resolvedNode_def applyAllOf_def)
    have d: "flattenPoly (flattenSchema n) s R [] q V rows = Some rows"
      using a(6,7) by (simp add: flattenPoly_def polymorphic_def)
    have e: "pushNodeRow s [] q (s_ref s) rows = rows"
      using a(1,2) by (simp add: pushNodeRow_rule)
    have f: "flattenProps (flattenSchema n) s R [] V rows = Some rows"
      using a(3) by (simp add: flattenProps_def)
    have g: "flattenMap (flattenSchema n) s R [] V rows = Some rows"
      using a(4) by (cases "s_additionalProperties s" rule: addlTruthy.cases)
        (simp_all add: flattenMap_def)
    have h: "flattenItems (flattenSchema n) s R [] V rows = Some rows"
      using a(2) by (simp add: flattenItems_def)
    show ?thesis
      by (simp add: flattenStep_descend[OF b(1)] b(2) c d e f g h)
  qed
  from 2 1 3 show ?thesis by (intro conjI) blast+
qed

theorem node_row_rule_witness:
  "map_option fst (flattenSchema (Suc 0) (typed ''integer'') None ''id'' True [] {})
     = Some [plainRow ''id'' ''integer'' True] \<and>
   map_option fst (flattenSchema (Suc 1) (set_items (Some (typed ''string'')) (typed ''array''))
                     None [] False [] {})
     = Some [plainRow [] ''array'' False, plainRow ''[]'' ''string'' False] \<and>
   flattenSchema (Suc 0) (typed ''string'') None [] False [] {} = Some ([], {})"
proof -
  have 1: "map_option fst (flattenSchema (Suc 0) (typed ''integer'') None ''id'' True [] {})
     = Some [plainRow ''id'' ''integer'' True]"
    unfolding node_row_rule[THEN conjunct1] by code_simp
  have 2: "map_option fst
             (flattenSchema (Suc 1) (set_items (Some (typed ''string'')) (typed ''array''))
                None [] False [] {})
     = Some [plainRow [] ''array'' False, plainRow ''[]'' ''string'' False]"
    unfolding node_row_rule[THEN conjunct1] by code_simp
  have a: "\<not> truthy (s_ref (typed ''string'')) \<and> nodeType (typed ''string'') \<noteq> ''array'' \<and>
           s_properties (typed ''string'') = None \<and>
           \<not> addlTruthy (s_additionalProperties (typed ''string'')) \<and>
           s_allOf (typed ''string'') = None \<and> s_oneOf (typed ''string'') = None \<and>
           s_anyOf (typed ''string'') = None"
    by code_simp
  from node_row_rule[of 0 "typed ''string''" None _ False "[]" "{}"] a
  have 3: "flattenSchema (Suc 0) (typed ''string'') None [] False [] {} = Some ([], {})"
    by blast
  from 1 2 3 show ?thesis by (intro conjI)
qed

text \<open>The claim as stated fails at a scalar root: \<^verbatim>\<open>{type: "string"}\<close> flattened with
  the default arguments (empty path, no \<^verbatim>\<open>$ref\<close>) yields no row.\<close>

theorem root_scalar_counterexample:
  "flattenRows 1 (typed ''string'') None = Some []"
  by code_simp

section \<open>The visited set\<close>

text \<open>
  Two components that each refer to themselves in a property, used in two sibling
  properties, are each cut at their own re-entry; a component used by two sibling
  properties is expanded twice and not marked.
\<close>

lemma sibling_branches_examples:
  "map_option (map (\<lambda>x. (path x, type x))) (flattenRows 3 twoCycles registrySiblings) =
     Some [(''l'', ''object''), (''l.self'', ''Recursive (L)''),
           (''r'', ''object''), (''r.self'', ''Recursive (R)'')] \<and>
   map_option (map (\<lambda>x. (path x, type x))) (flattenRows 2 reused registrySiblings) =
     Some [(''a'', ''string''), (''b'', ''string'')]"
  by code_simp

section \<open>Inputs on which the claims fail\<close>

text \<open>
  C4. The claim is that \<^verbatim>\<open>unflattenSchema\<close> never raises. On the two rows that the
  flattener produces for an array-valued property, \<open>tags\<close> of type \<open>array\<close> followed by
  \<open>tags[]\<close>, it throws: the first row creates the property as an object node and sets its
  type, without \<^verbatim>\<open>items\<close>; at the second row the array-item branch finds the property
  present, takes its \<^verbatim>\<open>items\<close>, which is \<^verbatim>\<open>undefined\<close>, and writes to it. (The
  root-array branch does create \<^verbatim>\<open>items\<close> on a node that is not yet an array.)
\<close>

theorem unflatten_throws_on_array_property:
  "unflattenSchema [plainRow ''tags'' ''array'' False, plainRow ''tags[]'' ''string'' False]
     = Inl TypeError"
  by code_simp

text \<open>
  C1. The claim is that reconstructing from the flattened rows gives back the tree, in
  particular on the end-to-end example. The example tree flattens to the three rows of the
  specification, and \<^verbatim>\<open>unflattenSchema\<close> throws on them: \<open>tags\<close> and \<open>tags[]\<close> are
  the two rows of an array-valued property.
\<close>

theorem roundtrip_example_throws:
  "flattenRows 3 exampleTree None = Some exampleRows \<and>
   unflattenSchema exampleRows = Inl TypeError"
  by code_simp

text \<open>C3 fails on the marker: flattening component \<open>A\<close> of the specification's example
  ends in one row of type \<^verbatim>\<open>Recursive (B)\<close>, with a space before the parenthesis.\<close>

theorem cycle_marker_counterexample:
  "map_option (map (\<lambda>x. (path x, type x)))
     (flattenRows 4 (object [(''prop'', refTo ''B'')]) registryAB) =
     Some [(''prop'', ''object''), (''prop.prop'', ''object''),
           (''prop.prop.prop'', ''Recursive (B)'')] \<and>
   ''Recursive (B)'' \<noteq> ''Recursive(B)''"
  by code_simp

text \<open>C10 fails on a path that begins with an empty segment without the \<^verbatim>\<open>[]\<close>
  suffix: the row \<^verbatim>\<open>.a\<close> makes the root an array.\<close>

theorem root_array_counterexample:
  "unflattenSchema [plainRow ''.a'' ''string'' False] =
     Inr (set_items
            (Some (set_properties
                     (Some [(''a'', set_description (Some []) (typed ''string''))])
                     (typed ''object'')))
            (typed ''array'')) \<and>
   hd (split CHR ''.'' ''.a'') \<noteq> ''[]''"
  by code_simp

section \<open>A cycle through allOf is not cut\<close>

text \<open>
  The cycle guard looks at the name the node itself was resolved to. The branches of an
  \<^verbatim>\<open>allOf\<close> are resolved by \<^verbatim>\<open>resolveSchema\<close> alone, without the guard, so a
  component that reaches itself through an \<^verbatim>\<open>allOf\<close> branch is expanded again and
  again: no amount of fuel makes the call return.
\<close>

lemma allOfNode_never_returns:
  "flattenSchema n allOfNode registryAllOf p q rows V = None"
proof (induction n arbitrary: p q rows V)
  case 0
  show ?case by simp
next
  case (Suc n)
  have a: "\<not> reentry allOfNode registryAllOf V"
    by (simp add: reentry_def resolveSchema_def allOfNode_def emptyObj_def)
  have b: "polymorphic (resolvedNode allOfNode registryAllOf) = []" by code_simp
  have c: "s_properties (resolvedNode allOfNode registryAllOf) = Some [(''next'', allOfNode)]"
    by code_simp
  show ?case
    by (simp add: flattenStep_descend[OF a] flattenPoly_def flattenProps_def b c Suc.IH)
qed

lemma allOf_cycle_never_returns:
  "flattenRows n (refTo ''Node'') registryAllOf = None"
proof (cases n)
  case 0
  then show ?thesis by (simp add: flattenRows_def)
next
  case (Suc m)
  have a: "\<not> reentry (refTo ''Node'') registryAllOf {}"
    by (simp add: reentry_def)
  have b: "polymorphic (resolvedNode (refTo ''Node'') registryAllOf) = []" by code_simp
  have c: "s_properties (resolvedNode (refTo ''Node'') registryAllOf)
             = Some [(''next'', allOfNode)]"
    by code_simp
  show ?thesis
    by (simp add: Suc flattenRows_def flattenStep_descend[OF a] flattenPoly_def
        flattenProps_def b c allOfNode_never_returns)
qed

lemma allOfNode_never_returns_two:
  "flattenSchema n allOfNode registryTwo p q rows V = None"
proof (induction n arbitrary: p q rows V)
  case 0
  show ?case by simp
next
  case (Suc n)
  have a: "\<not> reentry allOfNode registryTwo V"
    by (simp add: reentry_def resolveSchema_def allOfNode_def emptyObj_def)
  have b: "polymorphic (resolvedNode allOfNode registryTwo) = []" by code_simp
  have c: "s_properties (resolvedNode allOfNode registryTwo) = Some [(''next'', allOfNode)]"
    by code_simp
  show ?case
    by (simp add: flattenStep_descend[OF a] flattenPoly_def flattenProps_def b c Suc.IH)
qed

lemma refNode_never_returns:
  "flattenSchema n (refTo ''Node'') registryTwo p q rows {} = None"
proof (cases n)
  case 0
  then show ?thesis by simp
next
  case (Suc m)
  have a: "\<not> reentry (refTo ''Node'') registryTwo {}"
    by (simp add: reentry_def)
  have b: "polymorphic (resolvedNode (refTo ''Node'') registryTwo) = []" by code_simp
  have c: "s_properties (resolvedNode (refTo ''Node'') registryTwo)
             = Some [(''next'', allOfNode)]"
    by code_simp
  show ?thesis
    by (simp add: Suc flattenStep_descend[OF a] flattenPoly_def
        flattenProps_def b c allOfNode_never_returns_two)
qed

text \<open>
  C9. The claim is that two reference cycles in sibling branches are each detected,
  whatever the input. With the siblings \<open>l\<close>, a reference to a component that refers to
  itself in a property, and \<open>r\<close>, a reference to a component that reaches itself through
  an \<^verbatim>\<open>allOf\<close> branch, the cycle of \<open>l\<close> is cut on its own, and flattening the two
  together returns for no amount of fuel: the cycle of \<open>r\<close> is never detected.
\<close>

theorem sibling_allOf_cycle_not_detected:
  "flattenRows n siblingCycles registryTwo = None \<and>
   map_option (map (\<lambda>x. (path x, type x)))
     (flattenRows 3 (object [(''l'', refTo ''L'')]) registryTwo) =
     Some [(''l'', ''object''), (''l.self'', ''Recursive (L)'')]"
proof -
  have 1: "map_option (map (\<lambda>x. (path x, type x)))
     (flattenRows 3 (object [(''l'', refTo ''L'')]) registryTwo) =
     Some [(''l'', ''object''), (''l.self'', ''Recursive (L)'')]"
    by code_simp
  have 2: "flattenRows n siblingCycles registryTwo = None"
  proof (cases n)
    case 0
    then show ?thesis by (simp add: flattenRows_def)
  next
    case (Suc m)
    have a: "\<not> reentry siblingCycles registryTwo {}"
      by (simp add: reentry_def resolveSchema_def siblingCycles_def object_def emptyObj_def)
    have b: "polymorphic (resolvedNode siblingCycles registryTwo) = []" by code_simp
    have c: "s_properties (resolvedNode siblingCycles registryTwo)
               = Some [(''l'', refTo ''L''), (''r'', refTo ''Node'')]"
      by code_simp
    have d: "visitedAfter siblingCycles registryTwo {} = {}"
      by (simp add: visitedAfter_def resolveSchema_def siblingCycles_def object_def emptyObj_def)
    show ?thesis
      by (simp add: Suc flattenRows_def flattenStep_descend[OF a] flattenPoly_def
          flattenProps_def b c d refNode_never_returns split: option.splits)
  qed
  from 2 1 show ?thesis by (intro conjI)
qed


section \<open>Termination of the flattener\<close>

lemma forEachM_total:
  "(\<And>x s. x \<in> set xs \<Longrightarrow> f x s \<noteq> None) \<Longrightarrow> forEachM f xs s \<noteq> None"
proof (induction xs arbitrary: s)
  case Nil
  show ?case by simp
next
  case (Cons x xs)
  from Cons.prems[of x s] obtain s1 where "f x s = Some s1" by auto
  moreover have "forEachM f xs s1 \<noteq> None"
    by (rule Cons.IH) (simp add: Cons.prems)
  ultimately show ?case by simp
qed

lemma flattenPoly_total:
  assumes "\<And>c. c \<in> set (kids r) \<Longrightarrow> succeedsOn self R V c"
  shows "flattenPoly self r R p q V rows \<noteq> None"
  unfolding flattenPoly_def
proof (rule forEachM_total)
  fix x s
  assume "x \<in> set (polymorphic r)"
  then have "x \<in> set (kids r)" by (simp add: kids_def)
  from assms[OF this] show "map_option fst (self x R p q s V) \<noteq> None"
    by (simp add: succeedsOn_def)
qed

lemma flattenProps_total:
  assumes "\<And>c. c \<in> set (kids r) \<Longrightarrow> succeedsOn self R V c"
  shows "flattenProps self r R p V rows \<noteq> None"
proof (cases "s_properties r")
  case None
  then show ?thesis by (simp add: flattenProps_def)
next
  case (Some props)
  have "forEachM (\<lambda>(key, prop) rs. map_option fst
          (self prop R (propPath p key) (key \<in> set (requiredFields r)) rs V)) props rows
        \<noteq> None"
  proof (rule forEachM_total)
    fix x s
    assume "x \<in> set props"
    then have "snd x \<in> set (kids r)" by (simp add: kids_def Some optList_def)
    from assms[OF this]
    show "(case x of (key, prop) \<Rightarrow> \<lambda>rs. map_option fst
            (self prop R (propPath p key) (key \<in> set (requiredFields r)) rs V)) s \<noteq> None"
      by (cases x) (simp add: succeedsOn_def)
  qed
  with Some show ?thesis by (simp add: flattenProps_def)
qed

lemma flattenMap_total:
  assumes "\<And>c. c \<in> set (kids r) \<Longrightarrow> succeedsOn self R V c"
  shows "flattenMap self r R p V rows \<noteq> None"
proof (cases "s_additionalProperties r")
  case None
  then show ?thesis by (simp add: flattenMap_def)
next
  case (Some a)
  show ?thesis
  proof (cases a)
    case (AddlBool b)
    with Some show ?thesis by (simp add: flattenMap_def split: bool.splits)
  next
    case (AddlSchema c)
    with Some have "c \<in> set (kids r)" by (simp add: kids_def)
    from assms[OF this] Some AddlSchema show ?thesis
      by (simp add: flattenMap_def succeedsOn_def)
  qed
qed

lemma flattenItems_total:
  assumes "\<And>c. c \<in> set (kids r) \<Longrightarrow> succeedsOn self R V c"
  shows "flattenItems self r R p V rows \<noteq> None"
proof (cases "s_items r")
  case None
  then show ?thesis by (simp add: flattenItems_def)
next
  case (Some it)
  then have "it \<in> set (kids r)" by (simp add: kids_def)
  from assms[OF this] Some show ?thesis
    by (simp add: flattenItems_def succeedsOn_def)
qed

lemma flattenStep_total:
  assumes "\<And>c. c \<in> set (kids (resolvedNode s R))
             \<Longrightarrow> succeedsOn self R (visitedAfter s R V) c"
  shows "flattenStep self s R p q rows V \<noteq> None"
proof (cases "reentry s R V")
  case True
  then show ?thesis by (simp add: flattenStep_reentry)
next
  case False
  obtain rows1 where 1:
    "flattenPoly self (resolvedNode s R) R p q (visitedAfter s R V) rows = Some rows1"
    using flattenPoly_total[OF assms] by blast
  obtain rows3 where 2:
    "flattenProps self (resolvedNode s R) R p (visitedAfter s R V)
       (pushNodeRow (resolvedNode s R) p q (s_ref s) rows1) = Some rows3"
    using flattenProps_total[OF assms] by blast
  obtain rows4 where 3:
    "flattenMap self (resolvedNode s R) R p (visitedAfter s R V) rows3 = Some rows4"
    using flattenMap_total[OF assms] by blast
  obtain rows5 where 4:
    "flattenItems self (resolvedNode s R) R p (visitedAfter s R V) rows4 = Some rows5"
    using flattenItems_total[OF assms] by blast
  show ?thesis
    by (simp add: flattenStep_descend[OF False] 1 2 3 4)
qed

lemma allOfPlain_subs: "allOfPlain s \<Longrightarrow> c \<in> set (subs s) \<Longrightarrow> allOfPlain c"
  by (subst (asm) allOfPlain.simps) blast

lemma allOfPlain_branch:
  "allOfPlain s \<Longrightarrow> s_allOf s = Some bs \<Longrightarrow> b \<in> set bs \<Longrightarrow> \<not> truthy (s_ref b)"
  by (subst (asm) allOfPlain.simps) (simp add: optList_def)

lemma resolveSchema_self:
  "\<not> truthy (s_ref s) \<Longrightarrow>
     resolveSchema s R = \<lparr>node = s, resolvedFrom = None, originalRef = None\<rparr>"
  by (simp add: resolveSchema_def)

lemma resolveSchema_cases:
  obtains (registry) reg name e where
      "R = Some reg" "map_of reg name = Some e"
      "resolveSchema s R = \<lparr>node = e, resolvedFrom = Some name, originalRef = s_ref s\<rparr>"
    | (self) "resolveSchema s R = \<lparr>node = s, resolvedFrom = None, originalRef = None\<rparr>"
proof (cases "truthy (s_ref s)")
  case False
  then show ?thesis using self by (simp add: resolveSchema_def)
next
  case True
  show ?thesis
  proof (cases R)
    case None
    with True show ?thesis using self by (simp add: resolveSchema_def)
  next
    case (Some reg)
    show ?thesis
    proof (cases "map_of reg (last (split CHR ''/'' (the (s_ref s))))")
      case None
      with True Some show ?thesis using self by (simp add: resolveSchema_def)
    next
      case e: (Some e)
      with True Some have
        "resolveSchema s R =
           \<lparr>node = e, resolvedFrom = Some (last (split CHR ''/'' (the (s_ref s)))),
            originalRef = s_ref s\<rparr>"
        by (simp add: resolveSchema_def)
      with Some e show ?thesis using registry by blast
    qed
  qed
qed

lemma set_update_subset: "set (AList.update k v al) \<subseteq> insert (k, v) (set al)"
  by (induction al) auto

lemma set_assign_subset: "set (assign t s) \<subseteq> set t \<union> set s"
proof (induction s arbitrary: t)
  case Nil
  show ?case by (simp add: assign_def)
next
  case (Cons kv s)
  obtain k v where kv: "kv = (k, v)" by (cases kv)
  have "assign t (kv # s) = assign (AList.update k v t) s"
    by (simp add: assign_def kv)
  with Cons.IH[of "AList.update k v t"] set_update_subset[of k v t] show ?case
    by (auto simp: kv)
qed

lemma mergeAllOf_properties_origin:
  "kv \<in> set (m_properties (mergeAllOf R bs)) \<Longrightarrow> \<exists>b \<in> set bs. kv \<in> set (branchProps R b)"
proof (induction bs rule: rev_induct)
  case Nil
  then show ?case by (simp add: mergeAllOf_Nil)
next
  case (snoc b bs)
  from snoc.prems set_assign_subset[of "m_properties (mergeAllOf R bs)" "branchProps R b"]
  have "kv \<in> set (m_properties (mergeAllOf R bs)) \<or> kv \<in> set (branchProps R b)"
    by (auto simp: mergeAllOf_snoc mergeStep_properties)
  with snoc.IH show ?case by auto
qed

lemma mergeAllOf_map_origin:
  "m_additionalProperties (mergeAllOf R bs) = Some a \<Longrightarrow> \<exists>b \<in> set bs. branchMap R b = Some a"
proof (induction bs rule: rev_induct)
  case Nil
  then show ?case by (simp add: mergeAllOf_Nil)
next
  case (snoc b bs)
  then show ?case
    by (auto simp: mergeAllOf_snoc mergeStep_map split: if_splits)
qed

lemma kids_subs: "c \<in> set (kids s) \<Longrightarrow> c \<in> set (subs s)"
  by (auto simp: kids_def subs_def polymorphic_def optList_def split: option.splits)

lemma kids_applyAllOf:
  assumes "allOfPlain e" and "c \<in> set (kids (applyAllOf R e))"
  shows "allOfPlain c \<and> size c < size e"
proof (cases "s_allOf e")
  case None
  with assms(2) have "c \<in> set (subs e)" by (simp add: applyAllOf_def kids_subs)
  with assms(1) show ?thesis by (simp add: allOfPlain_subs subs_size)
next
  case (Some bs)
  define M where "M = mergeAllOf R bs"
  define r where "r = applyAllOf R e"
  have r: "r = spreadMerged e M" by (simp add: r_def M_def applyAllOf_def Some)
  have branch: "allOfPlain b \<and> size b < size e \<and> branchProps R b = optList (s_properties b)
                \<and> branchMap R b = s_additionalProperties b" if "b \<in> set bs" for b
  proof -
    from that Some have "b \<in> set (subs e)" by (simp add: subs_def optList_def)
    moreover from allOfPlain_branch[OF assms(1) Some that]
    have "resolveSchema b R = \<lparr>node = b, resolvedFrom = None, originalRef = None\<rparr>"
      by (rule resolveSchema_self)
    ultimately show ?thesis
      using assms(1) by (simp add: allOfPlain_subs subs_size branchProps_def branchMap_def optList_def)
  qed
  have via_branch: "allOfPlain c \<and> size c < size e" if "b \<in> set bs" "c \<in> set (subs b)" for b
  proof -
    from branch[OF that(1)] have "allOfPlain b" "size b < size e" by simp_all
    with that(2) allOfPlain_subs[of b c] subs_size[of c b] show ?thesis by simp
  qed
  have direct: "allOfPlain c \<and> size c < size e" if "c \<in> set (subs e)"
    using that assms(1) by (simp add: allOfPlain_subs subs_size)
  have fields: "s_properties r = Some (m_properties M)" "s_items r = s_items e"
    "s_oneOf r = s_oneOf e" "s_anyOf r = s_anyOf e"
    "s_additionalProperties r =
       (case m_additionalProperties M of None \<Rightarrow> s_additionalProperties e | Some a \<Rightarrow> Some a)"
    by (simp_all add: r spreadMerged_def Let_def split: option.splits)
  from assms(2) consider
      (poly) "c \<in> set (polymorphic r)"
    | (props) k where "(k, c) \<in> set (m_properties M)"
    | (addl) "s_additionalProperties r = Some (AddlSchema c)"
    | (items) "s_items r = Some c"
    unfolding r_def[symmetric] kids_def
    by (auto simp: fields(1) optList_def split: option.splits addl.splits)
  then show ?thesis
  proof cases
    case poly
    then have "c \<in> set (subs e)"
      by (auto simp: polymorphic_def fields subs_def optList_def split: option.splits)
    then show ?thesis by (rule direct)
  next
    case props
    from mergeAllOf_properties_origin[OF props[unfolded M_def]] obtain b where
      b: "b \<in> set bs" "(k, c) \<in> set (branchProps R b)" by blast
    with branch[OF b(1)] have "(k, c) \<in> set (optList (s_properties b))" by simp
    then have "c \<in> set (subs b)" by (force simp: subs_def)
    with b(1) show ?thesis by (rule via_branch)
  next
    case addl
    show ?thesis
    proof (cases "m_additionalProperties M")
      case None
      with addl have "s_additionalProperties e = Some (AddlSchema c)" by (simp add: fields)
      then have "c \<in> set (subs e)" by (simp add: subs_def)
      then show ?thesis by (rule direct)
    next
      case (Some a)
      with addl have "m_additionalProperties M = Some (AddlSchema c)" by (simp add: fields)
      from mergeAllOf_map_origin[OF this[unfolded M_def]] obtain b where
        b: "b \<in> set bs" "branchMap R b = Some (AddlSchema c)" by blast
      with branch[OF b(1)] have "s_additionalProperties b = Some (AddlSchema c)" by simp
      then have "c \<in> set (subs b)" by (simp add: subs_def)
      with b(1) show ?thesis by (rule via_branch)
    qed
  next
    case items
    then have "c \<in> set (subs e)" by (simp add: fields subs_def)
    then show ?thesis by (rule direct)
  qed
qed

lemma regPlain_entry:
  assumes "regPlain (Some reg)" and "map_of reg name = Some e"
  shows "allOfPlain e" and "name \<noteq> []" and "name \<in> names (Some reg)"
proof -
  from assms(2) have m: "(name, e) \<in> set reg" by (rule map_of_SomeD)
  with assms(1) show "allOfPlain e"
    by (auto simp: regPlain_def list_all_iff)
  from assms show "name \<noteq> []" by (auto simp: regPlain_def)
  from m show "name \<in> names (Some reg)" by (force simp: names_def)
qed

lemma finite_names: "finite (names R)"
  by (cases R) (simp_all add: names_def)

text \<open>Every call that a step makes is on a smaller problem: either the step resolved a
  component that was not yet on the branch, or the child is a proper part of the node.\<close>

lemma kids_decrease:
  assumes "regPlain R" and "allOfPlain s" and "\<not> reentry s R V"
    and "c \<in> set (kids (resolvedNode s R))"
  shows "allOfPlain c \<and>
         (card (names R - visitedAfter s R V) < card (names R - V) \<or>
          visitedAfter s R V = V \<and> size c < size s)"
proof (cases rule: resolveSchema_cases[of R s])
  case (registry reg name e)
  from regPlain_entry[OF assms(1)[unfolded registry(1)] registry(2)]
  have e: "allOfPlain e" "name \<noteq> []" "name \<in> names R" by (simp_all add: registry(1))
  from assms(4) have "c \<in> set (kids (applyAllOf R e))"
    by (simp add: resolvedNode_def registry(3))
  from kids_applyAllOf[OF e(1) this] have c: "allOfPlain c" by simp
  from assms(3) e(2) have "name \<notin> V" by (simp add: reentry_def registry(3))
  moreover have "visitedAfter s R V = insert name V"
    using e(2) by (simp add: visitedAfter_def registry(3))
  ultimately have "card (names R - visitedAfter s R V) < card (names R - V)"
    using e(3) finite_names[of R]
    by (metis Diff_insert card_Diff1_less DiffI finite_Diff)
  with c show ?thesis by simp
next
  case self
  from assms(4) have "c \<in> set (kids (applyAllOf R s))"
    by (simp add: resolvedNode_def self)
  from kids_applyAllOf[OF assms(2) this] have "allOfPlain c" "size c < size s" by simp_all
  moreover have "visitedAfter s R V = V" by (simp add: visitedAfter_def self)
  ultimately show ?thesis by simp
qed

lemma uniform_bound:
  "(\<And>c. c \<in> set cs \<Longrightarrow> \<exists>N. \<forall>n\<ge>N. Q c (n::nat)) \<Longrightarrow> \<exists>N. \<forall>c \<in> set cs. \<forall>n\<ge>N. Q c n"
proof (induction cs)
  case Nil
  show ?case by simp
next
  case (Cons c cs)
  from Cons.prems[of c] obtain N1 where 1: "\<forall>n\<ge>N1. Q c n" by auto
  from Cons.IH Cons.prems obtain N2 where 2: "\<forall>c \<in> set cs. \<forall>n\<ge>N2. Q c n" by auto
  from 1 2 have "\<forall>c' \<in> set (c # cs). \<forall>n\<ge>max N1 N2. Q c' n" by auto
  then show ?case by blast
qed

lemma flattenSchema_step_terminates:
  assumes kids: "\<And>c. c \<in> set (kids (resolvedNode s R)) \<Longrightarrow>
                   \<exists>N. \<forall>n\<ge>N. succeedsOn (flattenSchema n) R (visitedAfter s R V) c"
  shows "\<exists>N. \<forall>n\<ge>N. succeedsOn (flattenSchema n) R V s"
proof -
  from uniform_bound[of "kids (resolvedNode s R)"
      "\<lambda>c n. succeedsOn (flattenSchema n) R (visitedAfter s R V) c", OF kids]
  obtain N where N: "\<forall>c \<in> set (kids (resolvedNode s R)). \<forall>n\<ge>N.
                        succeedsOn (flattenSchema n) R (visitedAfter s R V) c"
    by blast
  have "succeedsOn (flattenSchema n) R V s" if "Suc N \<le> n" for n
  proof -
    from that obtain m where m: "n = Suc m" "N \<le> m" by (cases n) auto
    have "flattenStep (flattenSchema m) s R p q rows V \<noteq> None" for p q rows
      by (rule flattenStep_total) (use N m(2) in blast)
    then show ?thesis by (simp add: succeedsOn_def m(1))
  qed
  then show ?thesis by blast
qed

lemma flattenSchema_terminates:
  "regPlain R \<Longrightarrow> allOfPlain s \<Longrightarrow> \<exists>N. \<forall>n\<ge>N. succeedsOn (flattenSchema n) R V s"
proof (induction "card (names R - V)" arbitrary: V s rule: less_induct)
  case outer: less
  show ?case using outer.prems(2)
  proof (induction "size s" arbitrary: s rule: less_induct)
    case inner: less
    show ?case
    proof (cases "reentry s R V")
      case True
      have "succeedsOn (flattenSchema n) R V s" if "1 \<le> n" for n
      proof -
        from that obtain m where "n = Suc m" by (cases n) auto
        then show ?thesis by (simp add: succeedsOn_def flattenStep_reentry[OF True])
      qed
      then show ?thesis by blast
    next
      case False
      show ?thesis
      proof (rule flattenSchema_step_terminates)
        fix c
        assume c: "c \<in> set (kids (resolvedNode s R))"
        from kids_decrease[OF outer.prems(1) inner.prems False c]
        have plain: "allOfPlain c" and
          less: "card (names R - visitedAfter s R V) < card (names R - V) \<or>
                 visitedAfter s R V = V \<and> size c < size s"
          by simp_all
        from less show "\<exists>N. \<forall>n\<ge>N. succeedsOn (flattenSchema n) R (visitedAfter s R V) c"
        proof
          assume "card (names R - visitedAfter s R V) < card (names R - V)"
          from outer.hyps[OF this outer.prems(1) plain] show ?thesis .
        next
          assume "visitedAfter s R V = V \<and> size c < size s"
          with inner.hyps[of c] plain show ?thesis by simp
        qed
      qed
    qed
  qed
qed

text \<open>
  C3, as amended. When no \<^verbatim>\<open>allOf\<close> branch of the input or of a component is a
  reference, and no component has the empty name, \<^verbatim>\<open>flattenSchema\<close> returns: from
  some amount of fuel on, every call yields rows, whatever cycles the references form. A
  call on a reference whose component is already being expanded on the branch adds exactly
  one row and nothing below it: the row has the call's path and required flag, the type
  \<^verbatim>\<open>Recursive (\<close>name\<^verbatim>\<open>)\<close>, with a space before the parenthesis, the description
  \<^verbatim>\<open>Recursive reference detected\<close> and the node's \<^verbatim>\<open>$ref\<close>. For components \<open>A\<close> and
  \<open>B\<close> that refer to each other through a property, flattening a reference to \<open>A\<close>
  gives the rows of \<open>A\<close>, of \<open>B\<close> and one marker row for \<open>A\<close>.
\<close>

theorem cycle_guard_terminates:
  "(regPlain R \<and> allOfPlain s \<longrightarrow>
      (\<exists>N. \<forall>n\<ge>N. \<exists>rows' V'. flattenSchema n s R p q rows V = Some (rows', V'))) \<and>
   (truthy (resolvedFrom (resolveSchema s R)) \<and> the (resolvedFrom (resolveSchema s R)) \<in> V
      \<longrightarrow> flattenSchema (Suc n) s R p q rows V =
            Some (rows @ [\<lparr>path = p,
                            type = ''Recursive ('' @ the (resolvedFrom (resolveSchema s R)) @ '')'',
                            required = q, description = ''Recursive reference detected'',
                            enum = None, example = None, ref = s_ref s\<rparr>],
                  V)) \<and>
   map_option (map (\<lambda>x. (path x, type x))) (flattenRows 3 (refTo ''A'') registryAB) =
     Some [([], ''object''), (''prop'', ''object''), (''prop.prop'', ''Recursive (A)'')]"
proof -
  have 1: "\<exists>N. \<forall>n\<ge>N. \<exists>rows' V'. flattenSchema n s R p q rows V = Some (rows', V')"
    if "regPlain R" "allOfPlain s"
  proof -
    from flattenSchema_terminates[OF that] obtain N
      where "\<forall>n\<ge>N. succeedsOn (flattenSchema n) R V s" by blast
    then have "\<forall>n\<ge>N. \<exists>rows' V'. flattenSchema n s R p q rows V = Some (rows', V')"
      by (auto simp: succeedsOn_def)
    then show ?thesis by blast
  qed
  have 2: "flattenSchema (Suc n) s R p q rows V =
            Some (rows @ [\<lparr>path = p,
                            type = ''Recursive ('' @ the (resolvedFrom (resolveSchema s R)) @ '')'',
                            required = q, description = ''Recursive reference detected'',
                            enum = None, example = None, ref = s_ref s\<rparr>],
                  V)"
    if "truthy (resolvedFrom (resolveSchema s R)) \<and> the (resolvedFrom (resolveSchema s R)) \<in> V"
    using that flattenStep_reentry[of s R V "flattenSchema n" p q rows]
    by (simp add: reentry_def cycleRow_def)
  have 3: "map_option (map (\<lambda>x. (path x, type x))) (flattenRows 3 (refTo ''A'') registryAB) =
     Some [([], ''object''), (''prop'', ''object''), (''prop.prop'', ''Recursive (A)'')]"
    by code_simp
  from 1 2 3 show ?thesis by blast
qed

theorem cycle_guard_terminates_witness:
  "(\<exists>N. \<forall>n\<ge>N. \<exists>rows' V'.
      flattenSchema n (refTo ''A'') registryAB [] False [] {} = Some (rows', V')) \<and>
   flattenSchema (Suc 0) (refTo ''A'') registryAB ''prop.prop'' False [] {''A'', ''B''} =
     Some ([\<lparr>path = ''prop.prop'', type = ''Recursive (A)'', required = False,
             description = ''Recursive reference detected'', enum = None, example = None,
             ref = Some ''#/components/schemas/A''\<rparr>],
           {''A'', ''B''})"
proof -
  have a: "regPlain registryAB" by code_simp
  have b: "allOfPlain (refTo ''A'')" by code_simp
  have c: "resolvedFrom (resolveSchema (refTo ''A'') registryAB) = Some ''A''" by code_simp
  have d: "s_ref (refTo ''A'') = Some ''#/components/schemas/A''" by code_simp
  from cycle_guard_terminates[of registryAB "refTo ''A''" "[]" False "[]" "{}" 0] a b
  have 1: "\<exists>N. \<forall>n\<ge>N. \<exists>rows' V'.
      flattenSchema n (refTo ''A'') registryAB [] False [] {} = Some (rows', V')"
    by blast
  from cycle_guard_terminates[of registryAB "refTo ''A''" "''prop.prop''" False "[]"
      "{''A'', ''B''}" 0]
  have 2: "flattenSchema (Suc 0) (refTo ''A'') registryAB ''prop.prop'' False [] {''A'', ''B''} =
     Some ([\<lparr>path = ''prop.prop'', type = ''Recursive (A)'', required = False,
             description = ''Recursive reference detected'', enum = None, example = None,
             ref = Some ''#/components/schemas/A''\<rparr>],
           {''A'', ''B''})"
    unfolding c d by simp
  from 1 2 show ?thesis by blast
qed

section \<open>The root of the reconstructed tree\<close>

lemma split_not_Nil [simp]: "split c s \<noteq> []"
  by (induction s) (auto split: list.splits)

lemma cleanPart_empty: "cleanPart part = [] \<longleftrightarrow> part = [] \<or> part = ''[]''"
proof
  assume a: "cleanPart part = []"
  show "part = [] \<or> part = ''[]''"
  proof (cases "endsWith part ''[]''")
    case True
    with a have "length part \<le> 2" by (auto simp: cleanPart_def)
    moreover from True have "2 \<le> length part" and "drop (length part - 2) part = ''[]''"
      by (simp_all add: endsWith_def numeral_2_eq_2)
    ultimately show ?thesis by simp
  next
    case False
    with a show ?thesis by (simp add: cleanPart_def)
  qed
next
  assume "part = [] \<or> part = ''[]''"
  then show "cleanPart part = []"
    by (auto simp: cleanPart_def endsWith_def)
qed

lemma walk_root:
  assumes "walk row (part # rest) cur = Inr cur'"
  shows "s_description cur' = s_description cur \<and> s_ref cur' = s_ref cur \<and>
         s_type cur' = (if cleanPart part = [] then Some ''array'' else s_type cur)"
proof (cases "cleanPart part = []")
  case True
  with assms show ?thesis
    by (auto simp: Let_def split: option.splits sum.splits if_splits)
next
  case False
  show ?thesis
  proof (cases "cleanPart part = ''<key>'' \<or> cleanPart part = ''*''")
    case True
    with False assms show ?thesis
      by (auto simp: Let_def split: option.splits sum.splits addl.splits bool.splits)
  next
    case k: False
    with False assms show ?thesis
      by (auto simp: Let_def split: option.splits sum.splits if_splits)
  qed
qed

lemma processRow_root:
  assumes "processRow row (root, sk) = Inr (root', sk')" and "rootInv root"
  shows "rootInv root' \<and>
         (s_type root' = Some ''array'' \<longrightarrow>
            s_type root = Some ''array'' \<or> rootArrayPath (path row))"
proof (cases "path row = [] \<or> skipped sk (path row)")
  case True
  then have "processRow row (root, sk) = Inr (root, sk)"
    by (auto simp: processRow_def)
  with assms show ?thesis by simp
next
  case False
  obtain part rest where pr: "split CHR ''.'' (path row) = part # rest"
    by (cases "split CHR ''.'' (path row)") simp_all
  from False assms(1) have "walk row (part # rest) root = Inr root'"
    by (auto simp: processRow_def pr split: sum.splits)
  from walk_root[OF this] assms(2) False show ?thesis
    by (auto simp: rootInv_def rootArrayPath_def pr cleanPart_empty split: if_splits)
qed

lemma forEachE_root:
  "forEachE processRow rows (root, sk) = Inr (root', sk') \<Longrightarrow> rootInv root \<Longrightarrow>
     rootInv root' \<and>
     (s_type root' = Some ''array'' \<longrightarrow>
        s_type root = Some ''array'' \<or> (\<exists>r \<in> set rows. rootArrayPath (path r)))"
proof (induction rows arbitrary: root sk)
  case Nil
  then show ?case by simp
next
  case (Cons r rows)
  from Cons.prems(1) obtain root1 sk1 where
    a: "processRow r (root, sk) = Inr (root1, sk1)" and
    b: "forEachE processRow rows (root1, sk1) = Inr (root', sk')"
    by (auto split: sum.splits)
  from processRow_root[OF a Cons.prems(2)] have
    c: "rootInv root1" and
    d: "s_type root1 = Some ''array'' \<longrightarrow> s_type root = Some ''array'' \<or> rootArrayPath (path r)"
    by blast+
  from Cons.IH[OF b c] d show ?case by auto
qed

lemma forEachE_empty_paths:
  "forEachE processRow (filter (\<lambda>r. path r \<noteq> []) rows) st = forEachE processRow rows st"
proof (induction rows arbitrary: st)
  case Nil
  show ?case by simp
next
  case (Cons r rows)
  show ?case
  proof (cases "path r = []")
    case True
    then have "processRow r st = Inr st" by (simp add: processRow_def)
    with True Cons.IH show ?thesis by simp
  next
    case False
    with Cons.IH show ?thesis by (simp split: sum.splits)
  qed
qed

lemma rootInv_objNode: "rootInv objNode"
  by (simp add: rootInv_def objNode_def)

text \<open>
  C10, as amended. Rows with an empty path have no effect: the result is that of the rows
  without them. The root never takes a description or a \<^verbatim>\<open>$ref\<close> from a row, and
  its type is never a row's type: it stays \<open>object\<close> unless some row's path has an empty
  first segment, with or without the \<^verbatim>\<open>[]\<close> suffix (the path \<^verbatim>\<open>[]\<close>, or one
  that starts with \<^verbatim>\<open>[].\<close> or with \<^verbatim>\<open>.\<close>), which makes it \<open>array\<close>.
\<close>

theorem unflatten_root_untouched:
  "unflattenSchema (filter (\<lambda>r. path r \<noteq> []) rows) = unflattenSchema rows \<and>
   (unflattenSchema rows = Inr root \<longrightarrow>
      s_description root = None \<and> s_ref root = None \<and>
      (s_type root = Some ''object'' \<or> s_type root = Some ''array'') \<and>
      (s_type root = Some ''array'' \<longrightarrow>
         (\<exists>r \<in> set rows. path r \<noteq> [] \<and>
            (hd (split CHR ''.'' (path r)) = [] \<or> hd (split CHR ''.'' (path r)) = ''[]''))))"
proof -
  have 1: "unflattenSchema (filter (\<lambda>r. path r \<noteq> []) rows) = unflattenSchema rows"
    by (simp add: unflattenSchema_def forEachE_empty_paths)
  have 2: "s_description root = None \<and> s_ref root = None \<and>
      (s_type root = Some ''object'' \<or> s_type root = Some ''array'') \<and>
      (s_type root = Some ''array'' \<longrightarrow>
         (\<exists>r \<in> set rows. path r \<noteq> [] \<and>
            (hd (split CHR ''.'' (path r)) = [] \<or> hd (split CHR ''.'' (path r)) = ''[]'')))"
    if "unflattenSchema rows = Inr root"
  proof -
    from that obtain sk where "forEachE processRow rows (objNode, []) = Inr (root, sk)"
      by (auto simp: unflattenSchema_def split: sum.splits)
    from forEachE_root[OF this rootInv_objNode] show ?thesis
      by (auto simp: rootInv_def rootArrayPath_def objNode_def)
  qed
  from 1 2 show ?thesis by blast
qed

theorem unflatten_root_untouched_witness:
  "unflattenSchema [plainRow [] ''integer'' False, plainRow ''[]'' ''string'' False] =
     Inr (set_items (Some (set_description (Some []) (typed ''string''))) (typed ''array'')) \<and>
   (\<exists>r \<in> set [plainRow [] ''integer'' False, plainRow ''[]'' ''string'' False].
      path r \<noteq> [] \<and>
      (hd (split CHR ''.'' (path r)) = [] \<or> hd (split CHR ''.'' (path r)) = ''[]''))"
proof -
  have a: "unflattenSchema [plainRow [] ''integer'' False, plainRow ''[]'' ''string'' False] =
     Inr (set_items (Some (set_description (Some []) (typed ''string''))) (typed ''array''))"
    by code_simp
  have b: "s_type (set_items (Some (set_description (Some []) (typed ''string'')))
             (typed ''array'')) = Some ''array''"
    by code_simp
  from unflatten_root_untouched[of "[plainRow [] ''integer'' False, plainRow ''[]'' ''string'' False]"
      "set_items (Some (set_description (Some []) (typed ''string''))) (typed ''array'')"] a b
  show ?thesis by blast
qed

section \<open>Paths and segments\<close>

lemma split_no_sep: "c \<notin> set s \<Longrightarrow> split c s = [s]"
  by (induction s) auto

lemma split_prefix: "c \<notin> set s \<Longrightarrow> split c (s @ c # rest) = s # split c rest"
  by (induction s) auto

lemma join_snoc: "pre \<noteq> [] \<Longrightarrow> join (pre @ [k]) = join pre @ ''.'' @ k"
  by (induction pre rule: join.induct) auto

lemma join_Cons: "ts \<noteq> [] \<Longrightarrow> join (s # ts) = s @ ''.'' @ join ts"
  by (cases ts) auto

lemma split_join:
  "segs \<noteq> [] \<Longrightarrow> \<forall>s \<in> set segs. CHR ''.'' \<notin> set s \<Longrightarrow> split CHR ''.'' (join segs) = segs"
proof (induction segs rule: join.induct)
  case 1
  then show ?case by simp
next
  case (2 s)
  then show ?case by (simp add: split_no_sep)
next
  case (3 s t ts)
  then have "split CHR ''.'' (join (t # ts)) = t # ts" by simp
  moreover from 3 have "CHR ''.'' \<notin> set s" by simp
  ultimately show ?case
    using split_prefix[of "CHR ''.''" s "join (t # ts)"] by simp
qed

lemma plainKeys_nodot: "list_all plainKey segs \<Longrightarrow> \<forall>s \<in> set segs. CHR ''.'' \<notin> set s"
  by (auto simp: list_all_iff plainKey_def)

lemma join_nonempty: "list_all plainKey segs \<Longrightarrow> segs \<noteq> [] \<Longrightarrow> join segs \<noteq> []"
  by (induction segs rule: join.induct) (auto simp: plainKey_def)

lemma join_inject:
  assumes "list_all plainKey a" and "list_all plainKey b" and "join a = join b"
  shows "a = b"
proof (cases "a = []")
  case True
  with assms join_nonempty[of b] show ?thesis by auto
next
  case False
  with assms join_nonempty[of a] have "b \<noteq> []" by auto
  with False assms split_join[of a] split_join[of b] plainKeys_nodot show ?thesis
    by metis
qed

lemma propPath_join:
  "list_all plainKey pre \<Longrightarrow> propPath (join pre) k = join (pre @ [k])"
proof (cases "pre = []")
  case True
  then show ?thesis by (simp add: propPath_def)
next
  case False
  assume "list_all plainKey pre"
  with False join_nonempty have "join pre \<noteq> []" by blast
  with False show ?thesis by (simp add: propPath_def join_snoc)
qed

lemma cleanPart_plain: "plainKey k \<Longrightarrow> cleanPart k = k"
  by (simp add: plainKey_def cleanPart_def)

section \<open>The rows of a plain tree\<close>

lemma plainTree_node: "plainTree s \<Longrightarrow> plainNode s"
  by (subst (asm) plainTree.simps) simp

lemma plainTree_subs: "plainTree s \<Longrightarrow> c \<in> set (subs s) \<Longrightarrow> plainTree c"
  by (subst (asm) plainTree.simps) simp

lemma plainTree_child:
  "plainTree s \<Longrightarrow> s_properties s = Some ps \<Longrightarrow> kc \<in> set ps \<Longrightarrow>
     plainTree (snd kc) \<and> plainKey (fst kc)"
proof -
  assume a: "plainTree s" "s_properties s = Some ps" "kc \<in> set ps"
  then have "snd kc \<in> set (subs s)" by (simp add: subs_def optList_def)
  with a(1) have "plainTree (snd kc)" by (rule plainTree_subs)
  moreover from plainTree_node[OF a(1)] a(2,3) have "plainKey (fst kc)"
    by (auto simp: plainNode_def list_all_iff)
  ultimately show ?thesis by simp
qed

lemma plainTree_distinct:
  "plainTree s \<Longrightarrow> s_properties s = Some ps \<Longrightarrow> distinct (map fst ps)"
  by (drule plainTree_node) (simp add: plainNode_def)

lemma relRows_unfold:
  "relRows pre rel q c = (rel, nodeRow c (join pre) q None) # kidsRel pre rel c"
  by (subst relRows.simps) (simp add: kidsRel_def)

lemma relRows_snd: "map snd (relRows pre rel q c) = map snd (relRows pre rel' q c)"
proof (induction pre rel q c arbitrary: rel' rule: relRows.induct)
  case (1 pre rel q c)
  have "map snd (kidsRel pre rel c) = map snd (kidsRel pre rel' c)"
    unfolding kidsRel_def map_concat map_map
    by (rule arg_cong[where f = concat], rule map_cong[OF refl])
       (simp add: "1.IH"[of _ "rel' @ [fst _]"])
  then show ?case by (simp add: relRows_unfold)
qed

lemma relRows_shift:
  "relRows pre (k # rel) q c = map (\<lambda>x. (k # fst x, snd x)) (relRows pre rel q c)"
proof (induction pre rel q c rule: relRows.induct)
  case (1 pre rel q c)
  have "kidsRel pre (k # rel) c = map (\<lambda>x. (k # fst x, snd x)) (kidsRel pre rel c)"
    unfolding kidsRel_def map_concat map_map
    by (rule arg_cong[where f = concat], rule map_cong[OF refl]) (simp add: "1.IH")
  then show ?case by (simp add: relRows_unfold)
qed

lemma kidsRel_shift:
  "kidsRel pre (k # rel) c = map (\<lambda>x. (k # fst x, snd x)) (kidsRel pre rel c)"
  unfolding kidsRel_def map_concat map_map
  by (rule arg_cong[where f = concat], rule map_cong[OF refl]) (simp add: relRows_shift)

text \<open>Every row below a node has a path that extends the node's path by plain
  segments, and no \<^verbatim>\<open>ref\<close>.\<close>

lemma relRows_paths:
  "plainTree c \<Longrightarrow> x \<in> set (relRows pre rel q c) \<Longrightarrow>
     \<exists>ext. list_all plainKey ext \<and> path (snd x) = join (pre @ ext) \<and> fst x = rel @ ext
            \<and> ref (snd x) = None"
proof (induction pre rel q c arbitrary: x rule: relRows.induct)
  case (1 pre rel q c)
  from "1.prems"(2) consider
      (own) "x = (rel, nodeRow c (join pre) q None)"
    | (below) kc where "kc \<in> set (optList (s_properties c))"
        "x \<in> set (relRows (pre @ [fst kc]) (rel @ [fst kc])
                     (fst kc \<in> set (requiredFields c)) (snd kc))"
    by (subst (asm) relRows.simps) auto
  then show ?case
  proof cases
    case own
    then have "list_all plainKey [] \<and> path (snd x) = join (pre @ []) \<and> fst x = rel @ []
               \<and> ref (snd x) = None"
      by (simp add: nodeRow_def)
    then show ?thesis by blast
  next
    case below
    from below(1) obtain ps where ps: "s_properties c = Some ps" "kc \<in> set ps"
      by (cases "s_properties c") (auto simp: optList_def)
    from plainTree_child[OF "1.prems"(1) ps] have pc: "plainTree (snd kc)" "plainKey (fst kc)"
      by simp_all
    from "1.IH"[OF below(1) pc(1) below(2)] obtain ext where
      m: "list_all plainKey ext" "path (snd x) = join ((pre @ [fst kc]) @ ext)"
         "fst x = (rel @ [fst kc]) @ ext" "ref (snd x) = None"
      by blast
    with pc(2) have "list_all plainKey (fst kc # ext) \<and>
        path (snd x) = join (pre @ fst kc # ext) \<and> fst x = rel @ fst kc # ext \<and>
        ref (snd x) = None"
      by simp
    then show ?thesis by blast
  qed
qed

lemma kidsRel_paths:
  assumes "plainTree c" and "x \<in> set (kidsRel pre rel c)"
  shows "\<exists>k ext. list_all plainKey (k # ext) \<and> path (snd x) = join (pre @ k # ext) \<and>
           fst x = rel @ k # ext \<and> ref (snd x) = None"
proof -
  from assms(2) obtain kc where
    kc: "kc \<in> set (optList (s_properties c))"
        "x \<in> set (relRows (pre @ [fst kc]) (rel @ [fst kc])
                     (fst kc \<in> set (requiredFields c)) (snd kc))"
    by (auto simp: kidsRel_def)
  from kc(1) obtain ps where ps: "s_properties c = Some ps" "kc \<in> set ps"
    by (cases "s_properties c") (auto simp: optList_def)
  from plainTree_child[OF assms(1) ps] have pc: "plainTree (snd kc)" "plainKey (fst kc)"
    by simp_all
  from relRows_paths[OF pc(1) kc(2)] obtain ext where
    "list_all plainKey ext" "path (snd x) = join ((pre @ [fst kc]) @ ext)"
    "fst x = (rel @ [fst kc]) @ ext" "ref (snd x) = None"
    by blast
  with pc(2) have "list_all plainKey (fst kc # ext) \<and>
      path (snd x) = join (pre @ fst kc # ext) \<and> fst x = rel @ fst kc # ext \<and>
      ref (snd x) = None"
    by simp
  then show ?thesis by blast
qed

section \<open>Flattening a plain tree\<close>

lemma plain_resolve:
  assumes "plainTree c"
  shows "\<not> reentry c R V" and "resolvedNode c R = c" and "visitedAfter c R V = V"
proof -
  from plainTree_node[OF assms] have n: "s_ref c = None" "s_allOf c = None"
    by (simp_all add: plainNode_def)
  then have r: "resolveSchema c R = \<lparr>node = c, resolvedFrom = None, originalRef = None\<rparr>"
    by (simp add: resolveSchema_self)
  show "\<not> reentry c R V" by (simp add: reentry_def r)
  show "resolvedNode c R = c" by (simp add: resolvedNode_def r applyAllOf_def n)
  show "visitedAfter c R V = V" by (simp add: visitedAfter_def r)
qed

lemma plain_no_fanout:
  assumes "plainTree c"
  shows "flattenPoly self c R p q V rows = Some rows"
    and "flattenMap self c R p V rows = Some rows"
    and "flattenItems self c R p V rows = Some rows"
proof -
  from plainTree_node[OF assms] have n: "s_oneOf c = None" "s_anyOf c = None"
    "s_additionalProperties c = None" "s_items c = None"
    by (simp_all add: plainNode_def)
  show "flattenPoly self c R p q V rows = Some rows"
    by (simp add: flattenPoly_def polymorphic_def n)
  show "flattenMap self c R p V rows = Some rows"
    by (simp add: flattenMap_def n)
  show "flattenItems self c R p V rows = Some rows"
    by (simp add: flattenItems_def n)
qed

lemma plain_not_array: "plainTree c \<Longrightarrow> nodeType c \<noteq> ''array''"
  by (drule plainTree_node) (auto simp: plainNode_def split: option.splits)

lemma fresh_append:
  "fresh pre (rows @ ext) \<longleftrightarrow> fresh pre rows \<and> fresh pre ext"
  by (auto simp: fresh_def)

lemma fresh_below: "fresh pre rows \<Longrightarrow> plainKey k \<Longrightarrow> fresh (pre @ [k]) rows"
  unfolding fresh_def
proof (intro ballI allI impI)
  fix x ext
  assume a: "\<forall>x \<in> set rows. \<forall>ext. list_all plainKey ext \<longrightarrow> path x \<noteq> join (pre @ ext)"
    and k: "plainKey k" and x: "x \<in> set rows" and m: "list_all plainKey ext"
  from k m have "list_all plainKey (k # ext)" by simp
  with a x have "path x \<noteq> join (pre @ k # ext)" by blast
  then show "path x \<noteq> join ((pre @ [k]) @ ext)" by simp
qed

lemma fresh_sibling:
  assumes "list_all plainKey pre" and "plainKey k" and "plainKey k'" and "k \<noteq> k'"
    and "plainTree c"
  shows "fresh (pre @ [k']) (map snd (relRows (pre @ [k]) rel q c))"
  unfolding fresh_def
proof (intro ballI allI impI)
  fix x ext'
  assume "x \<in> set (map snd (relRows (pre @ [k]) rel q c))" and m': "list_all plainKey ext'"
  then obtain y where y: "y \<in> set (relRows (pre @ [k]) rel q c)" "x = snd y" by auto
  from relRows_paths[OF assms(5) y(1)] y(2) obtain ext where
    m: "list_all plainKey ext" "path x = join ((pre @ [k]) @ ext)" by blast
  show "path x \<noteq> join ((pre @ [k']) @ ext')"
  proof
    assume "path x = join ((pre @ [k']) @ ext')"
    with m(2) have "join ((pre @ [k]) @ ext) = join ((pre @ [k']) @ ext')" by simp
    moreover have "list_all plainKey ((pre @ [k]) @ ext)"
      "list_all plainKey ((pre @ [k']) @ ext')"
      using assms(1-3) m(1) m' by simp_all
    ultimately have "(pre @ [k]) @ ext = (pre @ [k']) @ ext'"
      using join_inject[of "(pre @ [k]) @ ext" "(pre @ [k']) @ ext'"] by blast
    with assms(4) show False by simp
  qed
qed

lemma fresh_own_row:
  assumes "list_all plainKey pre" and "plainKey k"
  shows "fresh (pre @ [k]) [nodeRow c (join pre) q None]"
  unfolding fresh_def
proof (intro ballI allI impI)
  fix x ext
  assume "x \<in> set [nodeRow c (join pre) q None]" and m: "list_all plainKey ext"
  then have x: "path x = join pre" by (simp add: nodeRow_def)
  show "path x \<noteq> join ((pre @ [k]) @ ext)"
  proof
    assume "path x = join ((pre @ [k]) @ ext)"
    with x have "join pre = join ((pre @ [k]) @ ext)" by simp
    moreover have "list_all plainKey ((pre @ [k]) @ ext)" using assms m by simp
    ultimately have "pre = (pre @ [k]) @ ext"
      using assms(1) join_inject[of pre "(pre @ [k]) @ ext"] by blast
    then show False by simp
  qed
qed

lemma props_loop:
  assumes "rowsCorrect self R" and "list_all plainKey pre"
  shows "\<forall>kc \<in> set ps. plainKey (fst kc) \<and> plainTree (snd kc) \<Longrightarrow>
    distinct (map fst ps) \<Longrightarrow>
    \<forall>kc \<in> set ps. fresh (pre @ [fst kc]) rows0 \<Longrightarrow>
    forEachM (\<lambda>(key, prop) rs. map_option fst
        (self prop R (propPath (join pre) key) (key \<in> set req) rs V)) ps rows0 = Some rows' \<Longrightarrow>
    rows' = rows0 @ concat (map (\<lambda>kc. map snd (relRows (pre @ [fst kc]) (pre @ [fst kc])
                                            (fst kc \<in> set req) (snd kc))) ps)"
proof (induction ps arbitrary: rows0)
  case Nil
  then show ?case by simp
next
  case (Cons kc ps)
  obtain k c where kc: "kc = (k, c)" by (cases kc)
  from Cons.prems(1) have pk: "plainKey k" "plainTree c" by (simp_all add: kc)
  from Cons.prems(4) obtain rows1 V1 where
    1: "self c R (propPath (join pre) k) (k \<in> set req) rows0 V = Some (rows1, V1)" and
    2: "forEachM (\<lambda>(key, prop) rs. map_option fst
          (self prop R (propPath (join pre) key) (key \<in> set req) rs V)) ps rows1 = Some rows'"
    by (auto simp: kc split: option.splits)
  have pre': "list_all plainKey (pre @ [k])" using assms(2) pk(1) by simp
  from Cons.prems(3) have f0: "fresh (pre @ [k]) rows0" by (simp add: kc)
  from 1 have "self c R (join (pre @ [k])) (k \<in> set req) rows0 V = Some (rows1, V1)"
    by (simp add: propPath_join[OF assms(2)])
  with assms(1) pk(2) pre' f0
  have rows1: "rows1 = rows0 @ map snd (relRows (pre @ [k]) (pre @ [k]) (k \<in> set req) c)"
    unfolding rowsCorrect_def by blast
  have "\<forall>kc' \<in> set ps. fresh (pre @ [fst kc']) rows1"
  proof
    fix kc'
    assume m: "kc' \<in> set ps"
    with Cons.prems(1,2) have "plainKey (fst kc')" "k \<noteq> fst kc'"
      by (auto simp: kc)
    from fresh_sibling[OF assms(2) pk(1) this pk(2)] Cons.prems(3) m
    show "fresh (pre @ [fst kc']) rows1"
      by (simp add: rows1 fresh_append)
  qed
  from Cons.IH[OF _ _ this 2] Cons.prems(1,2)
  have "rows' = rows1 @ concat (map (\<lambda>kc. map snd (relRows (pre @ [fst kc]) (pre @ [fst kc])
                                            (fst kc \<in> set req) (snd kc))) ps)"
    by simp
  then show ?case by (simp add: rows1 kc)
qed

lemma flattenStep_plain:
  assumes "rowsCorrect self R" and "plainTree c" and "list_all plainKey pre"
    and "fresh pre rows" and "flattenStep self c R (join pre) q rows V = Some (rows', V')"
  shows "rows' = (if pre = [] then rows else rows @ [nodeRow c (join pre) q None])
                 @ map snd (kidsRel pre pre c)"
proof -
  note pr = plain_resolve[OF assms(2)]
  note nf = plain_no_fanout[OF assms(2)]
  define rows2 where "rows2 = pushNodeRow c (join pre) q (s_ref c) rows"
  from flattenStep_phases[OF pr(1) assms(5)]
  have props: "flattenProps self c R (join pre) V rows2 = Some rows'"
    by (auto simp: pr nf rows2_def)
  have ref: "s_ref c = None" using plainTree_node[OF assms(2)] by (simp add: plainNode_def)
  have rows2: "rows2 = (if pre = [] then rows else rows @ [nodeRow c (join pre) q None])"
  proof (cases "pre = []")
    case True
    then show ?thesis
      by (simp add: rows2_def pushNodeRow_def emitsRow_def ref plain_not_array[OF assms(2)])
  next
    case False
    with join_nonempty[OF assms(3)] have j: "join pre \<noteq> []" by simp
    have "path x \<noteq> join pre" if "x \<in> set rows" for x
    proof -
      from assms(4) that have "list_all plainKey [] \<longrightarrow> path x \<noteq> join (pre @ [])"
        unfolding fresh_def by blast
      then show ?thesis by simp
    qed
    then have "\<not> rowExists rows (nodeRow c (join pre) q None)"
      by (auto simp: rowExists_def nodeRow_def)
    with False j show ?thesis
      by (simp add: rows2_def pushNodeRow_def emitsRow_def ref)
  qed
  show ?thesis
  proof (cases "s_properties c")
    case None
    with props have "rows' = rows2" by (simp add: flattenProps_def)
    with None show ?thesis by (simp add: rows2 kidsRel_def optList_def)
  next
    case (Some ps)
    have a: "\<forall>kc \<in> set ps. plainKey (fst kc) \<and> plainTree (snd kc)"
      using plainTree_child[OF assms(2) Some] by blast
    have b: "distinct (map fst ps)" by (rule plainTree_distinct[OF assms(2) Some])
    have c: "\<forall>kc \<in> set ps. fresh (pre @ [fst kc]) rows2"
    proof
      fix kc
      assume "kc \<in> set ps"
      with a have k: "plainKey (fst kc)" by blast
      from fresh_below[OF assms(4) k] fresh_own_row[OF assms(3) k, of c q]
      show "fresh (pre @ [fst kc]) rows2"
        by (cases "pre = []") (simp_all add: rows2 fresh_append)
    qed
    from props Some have
      "forEachM (\<lambda>(key, prop) rs. map_option fst
          (self prop R (propPath (join pre) key) (key \<in> set (requiredFields c)) rs V))
        ps rows2 = Some rows'"
      by (simp add: flattenProps_def)
    from props_loop[OF assms(1,3) a b c this]
    have "rows' = rows2 @ map snd (kidsRel pre pre c)"
      by (simp add: kidsRel_def Some optList_def map_concat comp_def)
    then show ?thesis by (simp add: rows2)
  qed
qed

lemma flattenSchema_rowsCorrect: "rowsCorrect (flattenSchema n) R"
proof (induction n)
  case 0
  show ?case by (simp add: rowsCorrect_def)
next
  case (Suc n)
  show ?case
    unfolding rowsCorrect_def
  proof (intro allI impI)
    fix c pre q rows V rows' V'
    assume a: "plainTree c" "pre \<noteq> []" "list_all plainKey pre" "fresh pre rows"
      "flattenSchema (Suc n) c R (join pre) q rows V = Some (rows', V')"
    from a(5) have "flattenStep (flattenSchema n) c R (join pre) q rows V = Some (rows', V')"
      by simp
    from flattenStep_plain[OF Suc a(1,3,4) this] a(2)
    show "rows' = rows @ map snd (relRows pre pre q c)"
      by (simp add: relRows_unfold)
  qed
qed

lemma flattenRows_plain:
  assumes "plainTree t" and "flattenRows n t R = Some rows"
  shows "rows = map snd (kidsRel [] [] t)"
proof (cases n)
  case 0
  with assms(2) show ?thesis by (simp add: flattenRows_def)
next
  case (Suc m)
  with assms(2) obtain V' where
    "flattenStep (flattenSchema m) t R (join []) False [] {} = Some (rows, V')"
    by (auto simp: flattenRows_def)
  from flattenStep_plain[OF flattenSchema_rowsCorrect assms(1) _ _ this]
  show ?thesis by (simp add: fresh_def)
qed

lemma plain_terminates:
  "plainTree c \<Longrightarrow> \<exists>N. \<forall>n\<ge>N. succeedsOn (flattenSchema n) R V c"
proof (induction c rule: measure_induct_rule[where f = size])
  case (less c)
  note pr = plain_resolve[OF less.prems]
  show ?case
  proof (rule flattenSchema_step_terminates)
    fix c'
    assume "c' \<in> set (kids (resolvedNode c R))"
    then have "c' \<in> set (subs c)" by (simp add: pr kids_subs)
    with less.prems have "plainTree c'" "size c' < size c"
      by (simp_all add: plainTree_subs subs_size)
    with less.IH show "\<exists>N. \<forall>n\<ge>N. succeedsOn (flattenSchema n) R (visitedAfter c R V) c'"
      by (simp add: pr)
  qed
qed

section \<open>Reconstructing a plain tree\<close>

lemma set_properties_twice [simp]: "set_properties a (set_properties b n) = set_properties a n"
  by (cases n) simp

lemma set_properties_same: "s_properties n = p \<Longrightarrow> set_properties p n = n"
  by (cases n) auto

lemma walkAll_append:
  "walkAll (xs @ ys) n = (case walkAll xs n of Inl e \<Rightarrow> Inl e | Inr n' \<Rightarrow> walkAll ys n')"
  by (induction xs arbitrary: n) (auto split: sum.splits)

lemma plainKey_facts:
  assumes "plainKey k"
  shows "cleanPart k \<noteq> []" "cleanPart k \<noteq> ''<key>''" "cleanPart k \<noteq> ''*''"
    "\<not> endsWith k ''[]''" "cleanPart k = k"
  using assms by (simp_all add: plainKey_def cleanPart_def)

lemma walk_plain_last:
  assumes "plainKey k"
  shows "walk row [k] n =
     Inr (set_properties
            (Some (AList.update k
                     (finish row False
                        (case map_of (optList (s_properties n)) k of
                           None \<Rightarrow> objNode | Some c \<Rightarrow> c))
                     (optList (s_properties n))))
            n)"
  using plainKey_facts[OF assms]
  by (simp add: Let_def optList_def cong: sum.case_cong option.case_cong)

lemma walk_plain_descend:
  assumes "plainKey k" and "ps \<noteq> []"
  shows "walk row (k # ps) n =
     (case walk row ps (case map_of (optList (s_properties n)) k of
                          None \<Rightarrow> objNode | Some c \<Rightarrow> c) of
        Inl e \<Rightarrow> Inl e
      | Inr c' \<Rightarrow>
          Inr (set_properties (Some (AList.update k c' (optList (s_properties n)))) n))"
  using plainKey_facts[OF assms(1)] assms(2)
  by (simp add: Let_def optList_def cong: sum.case_cong option.case_cong)

declare walk.simps [simp del]

lemma walkAll_descend:
  assumes "plainKey k"
  shows "\<forall>x \<in> set L. fst x \<noteq> [] \<Longrightarrow> s_properties n = Some props \<Longrightarrow>
    map_of props k = Some c0 \<Longrightarrow>
    walkAll (map (\<lambda>x. (k # fst x, snd x)) L) n =
      (case walkAll L c0 of
         Inl e \<Rightarrow> Inl e
       | Inr c' \<Rightarrow> Inr (set_properties (Some (AList.update k c' props)) n))"
proof (induction L arbitrary: n props c0)
  case Nil
  from Nil(3) have "AList.update k c0 props = props" by (rule update_triv)
  with Nil(2) show ?case by (simp add: set_properties_same)
next
  case (Cons x L)
  from Cons.prems(1) have x: "fst x \<noteq> []" by simp
  show ?case
  proof (cases "walk (snd x) (fst x) c0")
    case (Inl e)
    with x Cons.prems(2,3) show ?thesis
      by (simp add: walk_plain_descend[OF assms] optList_def)
  next
    case (Inr c1)
    define n1 where "n1 = set_properties (Some (AList.update k c1 props)) n"
    from Inr x Cons.prems(2,3) have w: "walk (snd x) (k # fst x) n = Inr n1"
      by (simp add: walk_plain_descend[OF assms] optList_def n1_def)
    have p1: "s_properties n1 = Some (AList.update k c1 props)"
      by (simp add: n1_def)
    have m1: "map_of (AList.update k c1 props) k = Some c1"
      by (simp add: update_conv')
    from Cons.prems(1) have "\<forall>x \<in> set L. fst x \<noteq> []" by simp
    from Cons.IH[OF this p1 m1]
    have "walkAll (map (\<lambda>x. (k # fst x, snd x)) L) n1 =
      (case walkAll L c1 of
         Inl e \<Rightarrow> Inl e
       | Inr c' \<Rightarrow> Inr (set_properties (Some (AList.update k c' props)) n))"
      by (simp add: n1_def cong: sum.case_cong)
    with w Inr show ?thesis by simp
  qed
qed

lemma rebuilt_fields:
  "s_ref (rebuilt c) = None" "s_type (rebuilt c) = Some (nodeType c)"
  "s_description (rebuilt c) = Some (orElse (s_description c) [])"
  "s_properties (rebuilt c) =
     (case s_properties c of
        None \<Rightarrow> None
      | Some ps \<Rightarrow> Some (map (\<lambda>kc. (fst kc, rebuilt (snd kc))) ps))"
  "s_required (rebuilt c) = None" "s_additionalProperties (rebuilt c) = None"
  "s_items (rebuilt c) = None" "s_allOf (rebuilt c) = None" "s_oneOf (rebuilt c) = None"
  "s_anyOf (rebuilt c) = None" "s_enum (rebuilt c) = None" "s_example (rebuilt c) = None"
  by (subst rebuilt.simps, simp)+

text \<open>The node that the row of a plain node creates under a fresh key, before the rows
  of the node's own properties arrive.\<close>

lemma finish_plain_leaf:
  assumes "plainTree c" and "s_properties c = None"
  shows "finish (nodeRow c p q None) False objNode = rebuilt c"
proof -
  from plainTree_node[OF assms(1)] assms(2)
  have t: "nodeType c \<noteq> ''object''" "nodeType c \<noteq> ''array''"
    by (simp_all add: plainNode_def)
  show ?thesis
    by (rule schema.expand)
       (simp add: finish_def nodeRow_def Let_def t rebuilt_fields assms(2) objNode_def)
qed

lemma finish_plain_object:
  assumes "plainTree c" and "s_properties c = Some ps"
  shows "finish (nodeRow c p q None) False objNode =
           set_properties (Some []) (rebuilt c)"
proof -
  from plainTree_node[OF assms(1)] assms(2)
  have t: "nodeType c = ''object''"
    by (simp add: plainNode_def)
  show ?thesis
    by (rule schema.expand)
       (simp add: finish_def nodeRow_def Let_def t rebuilt_fields assms(2) objNode_def)
qed

lemma update_absent: "k \<notin> fst ` set al \<Longrightarrow> AList.update k v al = al @ [(k, v)]"
  by (induction al) auto

lemma update_last_key:
  "k \<notin> fst ` set al \<Longrightarrow> AList.update k v (al @ [(k, v')]) = al @ [(k, v)]"
  by (induction al) auto

lemma map_of_absent: "k \<notin> fst ` set al \<Longrightarrow> map_of al k = None"
  by (simp add: map_of_eq_None_iff)

lemma kidsRel_leaf: "s_properties c = None \<Longrightarrow> kidsRel pre rel c = []"
  by (simp add: kidsRel_def optList_def)

lemma kidsRel_parts_nonempty:
  "plainTree c \<Longrightarrow> \<forall>x \<in> set (kidsRel pre [] c). fst x \<noteq> []"
  using kidsRel_paths[of c _ pre "[]"] by fastforce

text \<open>The rows of the properties of a plain object, applied to a node whose properties
  are still empty, build the rebuilt properties.\<close>

lemma rebuild_kids:
  "plainTree c \<Longrightarrow> s_properties c = Some ps \<Longrightarrow> s_properties n0 = Some [] \<Longrightarrow>
     walkAll (kidsRel pre [] c) n0 =
       Inr (set_properties (Some (map (\<lambda>kc. (fst kc, rebuilt (snd kc))) ps)) n0)"
proof (induction c arbitrary: ps n0 pre rule: measure_induct_rule[where f = size])
  case (less c)
  have child: "walkAll (relRows (pre @ [k]) [k] q c') n =
                 Inr (set_properties (Some (props @ [(k, rebuilt c')])) n)"
    if c': "plainTree c'" "size c' < size c" and k: "plainKey k"
      and n: "s_properties n = Some props" "k \<notin> fst ` set props"
    for k c' q n props
  proof -
    define row where "row = nodeRow c' (join (pre @ [k])) q None"
    define node1 where "node1 = finish row False objNode"
    define n1 where "n1 = set_properties (Some (props @ [(k, node1)])) n"
    have w1: "walk row [k] n = Inr n1"
      using n by (simp add: walk_plain_last[OF k] optList_def map_of_absent update_absent
          n1_def node1_def)
    have p1: "s_properties n1 = Some (props @ [(k, node1)])" by (simp add: n1_def)
    have m1: "map_of (props @ [(k, node1)]) k = Some node1"
      using n(2) by (simp add: map_add_def map_of_absent)
    have below: "walkAll (kidsRel (pre @ [k]) [] c') node1 = Inr (rebuilt c')"
    proof (cases "s_properties c'")
      case None
      then show ?thesis
        by (simp add: kidsRel_leaf node1_def row_def finish_plain_leaf[OF c'(1)])
    next
      case (Some ps')
      have node1: "node1 = set_properties (Some []) (rebuilt c')"
        by (simp add: node1_def row_def finish_plain_object[OF c'(1) Some])
      then have "s_properties node1 = Some []" by simp
      from less.IH[OF c'(2) c'(1) Some this, of "pre @ [k]"]
      have "walkAll (kidsRel (pre @ [k]) [] c') node1 =
              Inr (set_properties (Some (map (\<lambda>kc. (fst kc, rebuilt (snd kc))) ps'))
                     (rebuilt c'))"
        by (simp add: node1)
      moreover have "set_properties (Some (map (\<lambda>kc. (fst kc, rebuilt (snd kc))) ps'))
                       (rebuilt c') = rebuilt c'"
        by (rule set_properties_same) (simp add: rebuilt_fields Some)
      ultimately show ?thesis by simp
    qed
    have "walkAll (kidsRel (pre @ [k]) [k] c') n1 =
            Inr (set_properties (Some (AList.update k (rebuilt c') (props @ [(k, node1)]))) n1)"
      using walkAll_descend[OF k kidsRel_parts_nonempty[OF c'(1)] p1 m1, of "pre @ [k]"]
      by (simp add: kidsRel_shift[of _ k "[]"] below)
    then have "walkAll (kidsRel (pre @ [k]) [k] c') n1 =
            Inr (set_properties (Some (props @ [(k, rebuilt c')])) n)"
      using n(2) by (simp add: update_last_key n1_def)
    with w1 show ?thesis
      by (simp add: relRows_unfold row_def)
  qed
  have loop: "walkAll (concat (map (\<lambda>kc. relRows (pre @ [fst kc]) [fst kc]
                                          (fst kc \<in> set req) (snd kc)) todo)) n =
                Inr (set_properties
                       (Some (props @ map (\<lambda>kc. (fst kc, rebuilt (snd kc))) todo)) n)"
    if "\<forall>kc \<in> set todo. plainKey (fst kc) \<and> plainTree (snd kc) \<and> size (snd kc) < size c"
      and "distinct (map fst todo)" and "fst ` set todo \<inter> fst ` set props = {}"
      and "s_properties n = Some props"
    for todo n props req
    using that
  proof (induction todo arbitrary: n props)
    case Nil
    then show ?case by (simp add: set_properties_same)
  next
    case (Cons kc todo)
    from Cons.prems(1) have kc: "plainKey (fst kc)" "plainTree (snd kc)" "size (snd kc) < size c"
      by simp_all
    from Cons.prems(3) have absent: "fst kc \<notin> fst ` set props" by auto
    define n2 where "n2 = set_properties (Some (props @ [(fst kc, rebuilt (snd kc))])) n"
    from child[OF kc(2,3,1) Cons.prems(4) absent]
    have first: "walkAll (relRows (pre @ [fst kc]) [fst kc] (fst kc \<in> set req) (snd kc)) n
                   = Inr n2"
      by (simp add: n2_def)
    have p2: "s_properties n2 = Some (props @ [(fst kc, rebuilt (snd kc))])"
      by (simp add: n2_def)
    have d: "fst ` set todo \<inter> fst ` set (props @ [(fst kc, rebuilt (snd kc))]) = {}"
      using Cons.prems(2,3) by auto
    from Cons.IH[OF _ _ d p2] Cons.prems(1,2)
    have "walkAll (concat (map (\<lambda>kc. relRows (pre @ [fst kc]) [fst kc]
                                      (fst kc \<in> set req) (snd kc)) todo)) n2 =
            Inr (set_properties
                   (Some ((props @ [(fst kc, rebuilt (snd kc))])
                          @ map (\<lambda>kc. (fst kc, rebuilt (snd kc))) todo)) n2)"
      by simp
    with first show ?case
      by (simp add: walkAll_append n2_def)
  qed
  have kids: "\<forall>kc \<in> set ps. plainKey (fst kc) \<and> plainTree (snd kc) \<and> size (snd kc) < size c"
  proof
    fix kc
    assume m: "kc \<in> set ps"
    with less.prems(2) have "snd kc \<in> set (subs c)" by (simp add: subs_def optList_def)
    with plainTree_child[OF less.prems(1,2) m] show
      "plainKey (fst kc) \<and> plainTree (snd kc) \<and> size (snd kc) < size c"
      by (simp add: subs_size)
  qed
  from loop[OF kids plainTree_distinct[OF less.prems(1,2)] _ less.prems(3),
      of "requiredFields c"]
  show ?case by (simp add: kidsRel_def less.prems(2) optList_def)
qed

lemma forEachE_walkAll:
  "\<forall>x \<in> set L. ref (snd x) = None \<and> path (snd x) \<noteq> [] \<and>
                 split CHR ''.'' (path (snd x)) = fst x \<Longrightarrow>
   forEachE processRow (map snd L) (root, []) =
     (case walkAll L root of Inl e \<Rightarrow> Inl e | Inr r \<Rightarrow> Inr (r, []))"
proof (induction L arbitrary: root)
  case Nil
  show ?case by simp
next
  case (Cons x L)
  from Cons.prems have x: "ref (snd x) = None" "path (snd x) \<noteq> []"
    "split CHR ''.'' (path (snd x)) = fst x"
    by simp_all
  then have "processRow (snd x) (root, []) =
    (case walk (snd x) (fst x) root of Inl e \<Rightarrow> Inl e | Inr r \<Rightarrow> Inr (r, []))"
    by (simp add: processRow_def skipped_def cong: sum.case_cong)
  with Cons.IH Cons.prems show ?case
    by (simp split: sum.splits)
qed

lemma unflatten_plain:
  assumes "plainTree t" and "s_properties t = Some ps"
  shows "unflattenSchema (map snd (kidsRel [] [] t)) = Inr (rebuiltRoot t)"
proof -
  have "\<forall>x \<in> set (kidsRel [] [] t). ref (snd x) = None \<and> path (snd x) \<noteq> [] \<and>
          split CHR ''.'' (path (snd x)) = fst x"
  proof
    fix x
    assume "x \<in> set (kidsRel [] [] t)"
    from kidsRel_paths[OF assms(1) this] obtain k ext where
      e: "list_all plainKey (k # ext)" "path (snd x) = join (k # ext)" "fst x = k # ext"
         "ref (snd x) = None"
      by auto
    from join_nonempty[OF e(1)] split_join[of "k # ext"] plainKeys_nodot[OF e(1)] e
    show "ref (snd x) = None \<and> path (snd x) \<noteq> [] \<and> split CHR ''.'' (path (snd x)) = fst x"
      by simp
  qed
  from forEachE_walkAll[OF this, of objNode]
  have "forEachE processRow (map snd (kidsRel [] [] t)) (objNode, []) =
          (case walkAll (kidsRel [] [] t) objNode of Inl e \<Rightarrow> Inl e | Inr r \<Rightarrow> Inr (r, []))" .
  moreover have "s_properties objNode = Some []" by (simp add: objNode_def)
  from rebuild_kids[OF assms this, of "[]"]
  have "walkAll (kidsRel [] [] t) objNode = Inr (rebuiltRoot t)"
    by (simp add: rebuiltRoot_def assms(2) optList_def objNode_def)
  ultimately show ?thesis by (simp add: unflattenSchema_def)
qed

text \<open>
  Where the reconstruction returns. Take a schema tree made of nested objects with scalar
  leaves: no references, arrays, maps or composition, property names that are distinct,
  non-empty, without a dot or a trailing \<^verbatim>\<open>[]\<close>, not a map-key marker, not made of
  digits only and not inherited from \<^verbatim>\<open>Object.prototype\<close>. Flattening it
  terminates, and \<^verbatim>\<open>unflattenSchema\<close> on the rows returns the tree \<open>rebuiltRoot\<close>: the
  same property names in the same order at every level, each node with its type (the
  inferred one, \<open>object\<close> or \<open>string\<close>, when the tree gives none) and its description
  (empty when the tree gives none). The \<^verbatim>\<open>required\<close> lists are not reconstructed, and
  the root keeps no description.
\<close>

theorem roundtrip_plain_objects:
  "(plainTree t \<longrightarrow>
      (\<exists>N. \<forall>n\<ge>N. \<exists>rows. flattenRows n t R = Some rows \<and>
                              unflattenSchema rows = Inr (rebuiltRoot t))) \<and>
   s_properties (rebuiltRoot t) =
     Some (map (\<lambda>kc. (fst kc, rebuilt (snd kc))) (optList (s_properties t))) \<and>
   s_type (rebuilt c) = Some (nodeType c) \<and>
   s_description (rebuilt c) = Some (orElse (s_description c) []) \<and>
   s_properties (rebuilt c) =
     (case s_properties c of
        None \<Rightarrow> None
      | Some ps \<Rightarrow> Some (map (\<lambda>kc. (fst kc, rebuilt (snd kc))) ps)) \<and>
   s_required (rebuilt c) = None \<and>
   flattenRows 3 exampleTree None = Some exampleRows"
proof -
  have 1: "\<exists>N. \<forall>n\<ge>N. \<exists>rows. flattenRows n t R = Some rows \<and>
                              unflattenSchema rows = Inr (rebuiltRoot t)"
    if t: "plainTree t"
  proof -
    have u: "unflattenSchema (map snd (kidsRel [] [] t)) = Inr (rebuiltRoot t)"
    proof (cases "s_properties t")
      case None
      then show ?thesis
        by (simp add: kidsRel_def optList_def unflattenSchema_def rebuiltRoot_def objNode_def)
    next
      case (Some ps)
      from unflatten_plain[OF t this] show ?thesis .
    qed
    from plain_terminates[OF t, of R "{}"] obtain N where
      N: "\<forall>n\<ge>N. succeedsOn (flattenSchema n) R {} t" by blast
    have "\<exists>rows. flattenRows n t R = Some rows \<and> unflattenSchema rows = Inr (rebuiltRoot t)"
      if "N \<le> n" for n
    proof -
      from N that obtain rows where rows: "flattenRows n t R = Some rows"
        by (fastforce simp: succeedsOn_def flattenRows_def)
      from flattenRows_plain[OF t rows] u rows
      show ?thesis by simp
    qed
    then show ?thesis by blast
  qed
  have 2: "flattenRows 3 exampleTree None = Some exampleRows" by code_simp
  have 3: "s_properties (rebuiltRoot t) =
     Some (map (\<lambda>kc. (fst kc, rebuilt (snd kc))) (optList (s_properties t)))"
    by (simp add: rebuiltRoot_def)
  from 1 2 3 show ?thesis by (simp add: rebuilt_fields)
qed

theorem roundtrip_plain_objects_witness:
  "\<exists>N. \<forall>n\<ge>N. \<exists>rows. flattenRows n personTree None = Some rows \<and>
                          unflattenSchema rows = Inr (rebuiltRoot personTree)"
proof -
  have a: "plainTree personTree" by code_simp
  from roundtrip_plain_objects[of personTree None] a show ?thesis by blast
qed


end
